theory Spec2Isabelle
  imports Complex_Main "HOL-Library.Multiset"
begin

section \<open>JavaScript values used by the load engine\<close>

text \<open>
  The engine's counters (\<open>tasksStarted\<close>, \<open>stats.completed\<close>, \<open>stats.errors\<close>,
  \<open>stats.connErrors\<close>) are JavaScript numbers that start at 0 and only ever grow by
  \<open>++\<close>; they are modelled as \<open>nat\<close>, which is what a double does below \<open>2^53\<close>.
  Timestamps (\<open>Date.now()\<close>) and durations are integers of milliseconds, modelled as
  \<open>int\<close> (a duration is a difference of two clock readings, and the clock can be set
  back). Quotients are modelled by \<open>js_number\<close>: a finite quotient is kept as an exact
  rational (the rounding of doubles is not modelled), and a division by zero gives what
  JavaScript gives, \<open>Infinity\<close>, \<open>-Infinity\<close> or \<open>NaN\<close>.
\<close>

datatype js_number = Num rat | PosInfinity | NegInfinity | NaN

definition js_div :: "rat \<Rightarrow> rat \<Rightarrow> js_number" where
  "js_div a b =
     (if b \<noteq> 0 then Num (a / b)
      else if 0 < a then PosInfinity
      else if a < 0 then NegInfinity
      else NaN)"

text \<open>The comparison \<open>a > b\<close> of JavaScript: false whenever an operand is \<open>NaN\<close>.\<close>

fun js_gt :: "js_number \<Rightarrow> js_number \<Rightarrow> bool" where
  "js_gt NaN _ = False"
| "js_gt _ NaN = False"
| "js_gt (Num a) (Num b) = (b < a)"
| "js_gt PosInfinity PosInfinity = False"
| "js_gt PosInfinity _ = True"
| "js_gt _ PosInfinity = False"
| "js_gt NegInfinity _ = False"
| "js_gt (Num a) NegInfinity = True"

text \<open>
  An error thrown by the data store client: an \<open>Error\<close> object with a \<open>message\<close> and,
  for errors reported by the server, a \<open>code\<close> (the SQLSTATE, a string; absent
  otherwise).
\<close>

record js_error =
  code :: "string option"
  message :: string

text \<open>\<open>s.includes(t)\<close>: \<open>t\<close> occurs in \<open>s\<close> as a contiguous substring.\<close>

fun js_includes :: "string \<Rightarrow> string \<Rightarrow> bool" where
  "js_includes [] t = (t = [])"
| "js_includes (c # s) t = (take (length t) (c # s) = t \<or> js_includes s t)"

section \<open>One unit of work: \<open>performUserAction\<close>\<close>

text \<open>
  The data store is an external collaborator. What it answers to the calls of one unit of
  work is an input of the model: whether \<open>pool.connect()\<close>, the INSERT and the SELECT
  reject (and with which error), and the two readings of the clock. The calls made to the
  collaborator are logged, in order. The task identifier \<open>userId\<close> and the random record
  built from it only travel to the collaborator; they are left out.
\<close>

datatype db_call = Connect | Insert | Select | Release

record action_env =
  connect_err :: "js_error option"
  insert_err :: "js_error option"
  select_err :: "js_error option"
  now_start :: int
  now_end :: int

text \<open>
  The \<open>try\<close> block, common to both files up to the computation of \<open>duration\<close>. It
  yields whether \<open>client\<close> was assigned, the calls made, and either the error thrown or
  the duration.
\<close>

definition try_block :: "action_env \<Rightarrow> bool \<times> db_call list \<times> (js_error + int)" where
  "try_block env =
     (case connect_err env of
        Some err \<Rightarrow> (False, [Connect], Inl err)
      | None \<Rightarrow>
         (case insert_err env of
            Some err \<Rightarrow> (True, [Connect, Insert], Inl err)
          | None \<Rightarrow>
             (case select_err env of
                Some err \<Rightarrow> (True, [Connect, Insert, Select], Inl err)
              | None \<Rightarrow> (True, [Connect, Insert, Select], Inr (now_end env - now_start env)))))"

text \<open>The \<open>finally\<close> block: \<open>if (client) client.release()\<close>.\<close>

definition finally_block :: "bool \<Rightarrow> db_call list" where
  "finally_block client = (if client then [Release] else [])"

text \<open>\<open>index.js\<close>: the result object \<open>{success, duration}\<close> or \<open>{success, error}\<close>.\<close>

datatype action_result = Success int | Failure js_error

definition performUserAction :: "action_env \<Rightarrow> action_result \<times> db_call list" where
  "performUserAction env =
     (case try_block env of
        (client, calls, Inr duration) \<Rightarrow> (Success duration, calls @ finally_block client)
      | (client, calls, Inl err) \<Rightarrow> (Failure err, calls @ finally_block client))"

text \<open>
  \<open>stress_test.js\<close>: the same unit of work updates the global \<open>stats\<close> itself and
  returns nothing.
\<close>

record run_stats =
  completed :: nat
  errors :: nat
  totalDuration :: int
  latencies :: "int list"

definition performUserAction_st :: "run_stats \<Rightarrow> action_env \<Rightarrow> run_stats \<times> db_call list" where
  "performUserAction_st stats env =
     (case try_block env of
        (client, calls, Inr duration) \<Rightarrow>
          (stats\<lparr>completed := completed stats + 1,
                 totalDuration := totalDuration stats + duration,
                 latencies := latencies stats @ [duration]\<rparr>,
           calls @ finally_block client)
      | (client, calls, Inl err) \<Rightarrow>
          (stats\<lparr>errors := errors stats + 1\<rparr>, calls @ finally_block client))"

section \<open>Percentiles (\<open>stress_test.js\<close>)\<close>

text \<open>
  \<open>stats.latencies.sort((a, b) => a - b)\<close> sorts the samples in ascending numeric order.
  \<open>getPercentile\<close> reads the sorted array at \<open>Math.floor((p / 100) * length)\<close>; an index
  outside the array reads \<open>undefined\<close>, which is \<open>None\<close> here. The product is computed
  exactly; for the percentiles 50 and 99 of 100 samples, used below, doubles give the same
  index (\<open>0.5 * 100\<close> is 50 and \<open>0.99 * 100\<close> rounds to 99).
\<close>

definition sort_latencies :: "int list \<Rightarrow> int list" where
  "sort_latencies xs = sort xs"

definition getPercentile :: "int list \<Rightarrow> rat \<Rightarrow> int option" where
  "getPercentile lat p =
     (if length lat = 0 then Some 0
      else let index = \<lfloor>(p / 100) * of_nat (length lat)\<rfloor>
           in if 0 \<le> index \<and> index < int (length lat) then Some (lat ! nat index) else None)"

text \<open>The fixture: the samples 10, 20, ..., 1000.\<close>

definition fixture :: "int list" where
  "fixture = map (\<lambda>k. 10 * int k) [1..<101]"

section \<open>The task source and the worker loop\<close>

text \<open>\<open>const taskIndex = tasksStarted++\<close>: the old value is returned, the counter grows.\<close>

definition nextIndex :: "nat \<Rightarrow> nat \<times> nat" where
  "nextIndex n = (n, n + 1)"

text \<open>
  A worker is an async function. Between two suspension points it runs alone, so the state
  of a worker seen by the others is where it is suspended: \<open>Awaiting i\<close> while its unit
  of work for task \<open>i\<close> is in flight, \<open>Exited\<close> after its \<open>break\<close>.
  \<open>Returned i\<close> is used by \<open>stress_test.js\<close> only: the unit of work has updated the
  statistics and returned, and the worker has not yet been resumed.
\<close>

datatype worker = Awaiting nat | Returned nat | Exited

text \<open>
  The trace is a history variable: each call of the task source by worker \<open>w\<close> that
  returned \<open>i\<close> appends \<open>Polled w i\<close>, and each recording of the outcome of task \<open>i\<close>
  appends \<open>Recorded w i\<close>. No definition reads it.
\<close>

datatype label = Polled nat nat | Recorded nat nat

record 's pool_state =
  tasksStarted :: nat
  stats :: 's
  workers :: "worker list"
  trace :: "label list"

text \<open>
  The head of the worker's loop:
  \<open>const taskIndex = tasksStarted++; if (taskIndex >= requestCount) break;\<close>
  after which the worker starts the unit of work and is suspended.
\<close>

definition loop_head :: "nat \<Rightarrow> nat \<Rightarrow> 's pool_state \<Rightarrow> worker \<times> 's pool_state" where
  "loop_head requestCount w st =
     (case nextIndex (tasksStarted st) of
        (taskIndex, n) \<Rightarrow>
          (if requestCount \<le> taskIndex then Exited else Awaiting taskIndex,
           st\<lparr>tasksStarted := n, trace := trace st @ [Polled w taskIndex]\<rparr>))"

text \<open>
  One iteration of \<open>for (let i = 0; i < concurrency; i++) workers.push((async () => ...)())\<close>:
  the new worker runs up to its first suspension, then its promise is pushed.
\<close>

definition start_worker :: "nat \<Rightarrow> 's pool_state \<Rightarrow> 's pool_state" where
  "start_worker requestCount st =
     (case loop_head requestCount (length (workers st)) st of
        (wk, st') \<Rightarrow> st'\<lparr>workers := workers st' @ [wk]\<rparr>)"

primrec spawn_workers :: "nat \<Rightarrow> nat \<Rightarrow> 's pool_state \<Rightarrow> 's pool_state" where
  "spawn_workers requestCount 0 st = st"
| "spawn_workers requestCount (Suc k) st = spawn_workers requestCount k (start_worker requestCount st)"

text \<open>A resumed worker \<open>w\<close> goes round its loop once more.\<close>

definition continue_worker :: "nat \<Rightarrow> nat \<Rightarrow> 's pool_state \<Rightarrow> 's pool_state" where
  "continue_worker requestCount w st =
     (case loop_head requestCount w st of
        (wk, st') \<Rightarrow> st'\<lparr>workers := (workers st')[w := wk]\<rparr>)"

text \<open>\<open>await Promise.all(workers)\<close> returns once every worker has exited.\<close>

definition all_exited :: "'s pool_state \<Rightarrow> bool" where
  "all_exited st = list_all (\<lambda>wk. wk = Exited) (workers st)"

section \<open>A stage (\<open>index.js\<close>, \<open>runStage\<close>)\<close>

record stage_stats = run_stats +
  connErrors :: nat

definition is_conn_error :: "js_error \<Rightarrow> bool" where
  "is_conn_error err = (code err = Some ''53300'' \<or> js_includes (message err) ''timeout'')"

text \<open>The body of the worker's loop after \<open>await performUserAction(pool, userId)\<close>.\<close>

definition record_result :: "stage_stats \<Rightarrow> action_result \<Rightarrow> stage_stats" where
  "record_result s result =
     (case result of
        Success duration \<Rightarrow>
          s\<lparr>completed := completed s + 1,
            totalDuration := totalDuration s + duration,
            latencies := latencies s @ [duration]\<rparr>
      | Failure err \<Rightarrow>
          (let s' = s\<lparr>errors := errors s + 1\<rparr>
           in if is_conn_error err then s'\<lparr>connErrors := connErrors s' + 1\<rparr> else s'))"

text \<open>
  The scheduler's choice is an input: a completion \<open>(w, env)\<close> says that the unit of work
  worker \<open>w\<close> is awaiting finishes next, with the collaborator's answers \<open>env\<close>. The
  worker then records the result and goes back to the head of its loop, without being
  interrupted. A completion for a worker that awaits nothing cannot happen (\<open>None\<close>).
\<close>

definition resume :: "nat \<Rightarrow> stage_stats pool_state \<Rightarrow> nat \<times> action_env \<Rightarrow> stage_stats pool_state option" where
  "resume requestCount st ev =
     (case ev of
        (w, env) \<Rightarrow>
          if w < length (workers st) then
            (case workers st ! w of
               Awaiting taskIndex \<Rightarrow>
                 (let result = fst (performUserAction env);
                      st' = st\<lparr>stats := record_result (stats st) result,
                               trace := trace st @ [Recorded w taskIndex]\<rparr>
                  in Some (continue_worker requestCount w st'))
             | _ \<Rightarrow> None)
          else None)"

fun run_events :: "nat \<Rightarrow> stage_stats pool_state \<Rightarrow> (nat \<times> action_env) list \<Rightarrow> stage_stats pool_state option" where
  "run_events requestCount st [] = Some st"
| "run_events requestCount st (ev # evs) =
     (case resume requestCount st ev of
        None \<Rightarrow> None
      | Some st' \<Rightarrow> run_events requestCount st' evs)"

definition init_stage :: "stage_stats pool_state" where
  "init_stage =
     \<lparr>tasksStarted = 0,
      stats = \<lparr>completed = 0, errors = 0, totalDuration = 0, latencies = [], connErrors = 0\<rparr>,
      workers = [],
      trace = []\<rparr>"

text \<open>
  The worker pool of a stage, from the \<open>for\<close> loop to the return of \<open>Promise.all\<close>. The
  result is \<open>None\<close> when the completions given are not those of a whole stage: one of them
  is impossible, or a worker is still suspended after the last.
\<close>

definition run_pool :: "int \<Rightarrow> nat \<Rightarrow> (nat \<times> action_env) list \<Rightarrow> stage_stats pool_state option" where
  "run_pool c requestCount evs =
     (case run_events requestCount (spawn_workers requestCount (nat c) init_stage) evs of
        None \<Rightarrow> None
      | Some st \<Rightarrow> if all_exited st then Some st else None)"

text \<open>
  What the surroundings decide during a stage: the completions in the order in which they
  happen, and the readings of the clock before the workers start and after they are done.
\<close>

record 'e run_env =
  completions :: "'e list"
  startTime :: int
  endTime :: int

record StageResult =
  concurrency :: int
  throughput :: js_number
  avgLatency :: js_number
  errorRate :: js_number
  hasCriticalFailure :: bool

definition MAX_ERROR_RATE :: js_number where
  "MAX_ERROR_RATE = Num (5 / 100)"

text \<open>The end of \<open>runStage\<close>, from \<open>const totalTime\<close> to the \<open>return\<close>.\<close>

definition stage_result :: "int \<Rightarrow> nat \<Rightarrow> stage_stats \<Rightarrow> int \<Rightarrow> int \<Rightarrow> StageResult" where
  "stage_result c requestCount s t0 t1 =
     (let totalTime = of_int (t1 - t0) / 1000;
          tp = js_div (of_nat (completed s)) totalTime;
          avg = (if 0 < completed s
                 then js_div (of_int (totalDuration s)) (of_nat (completed s))
                 else Num 0);
          rate = js_div (of_nat (errors s)) (of_nat requestCount)
      in \<lparr>concurrency = c,
          throughput = tp,
          avgLatency = avg,
          errorRate = rate,
          hasCriticalFailure = (0 < connErrors s \<or> js_gt rate MAX_ERROR_RATE)\<rparr>)"

definition runStage :: "int \<Rightarrow> nat \<Rightarrow> (nat \<times> action_env) run_env \<Rightarrow> StageResult option" where
  "runStage c requestCount env =
     (case run_pool c requestCount (completions env) of
        None \<Rightarrow> None
      | Some st \<Rightarrow> Some (stage_result c requestCount (stats st) (startTime env) (endTime env)))"

section \<open>The single run (\<open>stress_test.js\<close>, \<open>runStressTest\<close>)\<close>

text \<open>
  Here the unit of work updates the statistics itself, and the worker that awaits it is
  resumed later: other workers can run in between. So there are two events: \<open>Finish w env\<close>,
  the unit of work of worker \<open>w\<close> runs to its end with the collaborator's answers \<open>env\<close>,
  and \<open>Resume w\<close>, worker \<open>w\<close> continues after its \<open>await\<close> (the progress line it may print
  changes nothing) and goes back to the head of its loop. The constants \<open>CONCURRENCY\<close>
  and \<open>NUM_USERS\<close> are parameters.
\<close>

datatype event_st = Finish nat action_env | Resume nat

definition step_st :: "nat \<Rightarrow> run_stats pool_state \<Rightarrow> event_st \<Rightarrow> run_stats pool_state option" where
  "step_st numUsers st ev =
     (case ev of
        Finish w env \<Rightarrow>
          if w < length (workers st) then
            (case workers st ! w of
               Awaiting taskIndex \<Rightarrow>
                 Some (st\<lparr>stats := fst (performUserAction_st (stats st) env),
                          workers := (workers st)[w := Returned taskIndex],
                          trace := trace st @ [Recorded w taskIndex]\<rparr>)
             | _ \<Rightarrow> None)
          else None
      | Resume w \<Rightarrow>
          if w < length (workers st) then
            (case workers st ! w of
               Returned taskIndex \<Rightarrow> Some (continue_worker numUsers w st)
             | _ \<Rightarrow> None)
          else None)"

fun run_events_st :: "nat \<Rightarrow> run_stats pool_state \<Rightarrow> event_st list \<Rightarrow> run_stats pool_state option" where
  "run_events_st numUsers st [] = Some st"
| "run_events_st numUsers st (ev # evs) =
     (case step_st numUsers st ev of
        None \<Rightarrow> None
      | Some st' \<Rightarrow> run_events_st numUsers st' evs)"

definition init_run :: "run_stats pool_state" where
  "init_run =
     \<lparr>tasksStarted = 0,
      stats = \<lparr>completed = 0, errors = 0, totalDuration = 0, latencies = []\<rparr>,
      workers = [],
      trace = []\<rparr>"

definition run_pool_st :: "int \<Rightarrow> nat \<Rightarrow> event_st list \<Rightarrow> run_stats pool_state option" where
  "run_pool_st c numUsers evs =
     (case run_events_st numUsers (spawn_workers numUsers (nat c) init_run) evs of
        None \<Rightarrow> None
      | Some st \<Rightarrow> if all_exited st then Some st else None)"

text \<open>The figures printed at the end of the run.\<close>

record RunSummary =
  successful :: nat
  failed :: nat
  throughput_st :: js_number
  latency_avg :: js_number
  latency_p50 :: "int option"
  latency_p95 :: "int option"
  latency_p99 :: "int option"
  latency_max :: int

definition run_summary :: "run_stats \<Rightarrow> int \<Rightarrow> int \<Rightarrow> RunSummary" where
  "run_summary s t0 t1 =
     (let totalTime = of_int (t1 - t0) / 1000;
          tp = js_div (of_nat (completed s)) totalTime;
          sorted_lat = sort_latencies (latencies s)
      in \<lparr>successful = completed s,
          failed = errors s,
          throughput_st = tp,
          latency_avg =
            js_div (of_int (totalDuration s)) (of_nat (if completed s = 0 then 1 else completed s)),
          latency_p50 = getPercentile sorted_lat 50,
          latency_p95 = getPercentile sorted_lat 95,
          latency_p99 = getPercentile sorted_lat 99,
          latency_max = (if sorted_lat = [] then 0 else last sorted_lat)\<rparr>)"

definition runStressTest :: "int \<Rightarrow> nat \<Rightarrow> event_st run_env \<Rightarrow> RunSummary option" where
  "runStressTest c numUsers env =
     (case run_pool_st c numUsers (completions env) of
        None \<Rightarrow> None
      | Some st \<Rightarrow> Some (run_summary (stats st) (startTime env) (endTime env)))"

section \<open>The progressive test (\<open>index.js\<close>, \<open>runProgressiveTest\<close>)\<close>

text \<open>
  The loop has two exits: the \<open>break\<close> after a critical failure, where the message gives
  \<open>currentConcurrency - CONCURRENCY_STEP\<close> as the stable limit, and the loop condition
  \<open>currentConcurrency <= MAX_CONCURRENCY\<close> becoming false. The stages are given as a
  function from the number of the stage (the length of the report so far) and its
  concurrency to its result; \<open>None\<close> is a stage that never returns. The loop need not
  terminate (a step of 0 and no failure), so it is a partial function. The pause between
  two stages changes nothing. The setup of the table before the loop is left out: when it
  fails the process exits before any stage.
\<close>

datatype terminal = StoppedOnFailure int | StoppedAtCeiling

partial_function (option) progressive_loop ::
  "(nat \<Rightarrow> int \<Rightarrow> StageResult option) \<Rightarrow> int \<Rightarrow> int \<Rightarrow> int \<Rightarrow> StageResult list
     \<Rightarrow> (StageResult list \<times> terminal) option" where
  "progressive_loop stage step maxConcurrency currentConcurrency report =
     (if currentConcurrency \<le> maxConcurrency then
        (case stage (length report) currentConcurrency of
           None \<Rightarrow> None
         | Some result \<Rightarrow>
            (if hasCriticalFailure result
             then Some (report @ [result], StoppedOnFailure (currentConcurrency - step))
             else progressive_loop stage step maxConcurrency (currentConcurrency + step)
                    (report @ [result])))
      else Some (report, StoppedAtCeiling))"

text \<open>The run with the constants of the file as parameters, and with the constants.\<close>

definition progressive_test ::
  "int \<Rightarrow> int \<Rightarrow> int \<Rightarrow> nat \<Rightarrow> (nat \<Rightarrow> (nat \<times> action_env) run_env)
     \<Rightarrow> (StageResult list \<times> terminal) option" where
  "progressive_test initialConcurrency step maxConcurrency stageRequests envs =
     progressive_loop (\<lambda>k c. runStage c stageRequests (envs k)) step maxConcurrency
       initialConcurrency []"

definition runProgressiveTest ::
  "(nat \<Rightarrow> (nat \<times> action_env) run_env) \<Rightarrow> (StageResult list \<times> terminal) option" where
  "runProgressiveTest envs = progressive_test 10 10 500 2000 envs"

section \<open>Notions used in the statements\<close>

text \<open>The indices the task source has returned, and the indices whose outcome was recorded.\<close>

fun polled :: "label \<Rightarrow> nat list" where
  "polled (Polled w i) = [i]"
| "polled (Recorded w i) = []"

fun recorded :: "label \<Rightarrow> nat list" where
  "recorded (Polled w i) = []"
| "recorded (Recorded w i) = [i]"

definition polls :: "label list \<Rightarrow> nat list" where
  "polls tr = concat (map polled tr)"

definition records :: "label list \<Rightarrow> nat list" where
  "records tr = concat (map recorded tr)"

text \<open>The tasks in flight: those a worker awaits.\<close>

fun in_flight :: "worker \<Rightarrow> nat multiset" where
  "in_flight (Awaiting i) = {#i#}"
| "in_flight (Returned i) = {#}"
| "in_flight Exited = {#}"

definition pending :: "worker list \<Rightarrow> nat multiset" where
  "pending ws = sum_list (map in_flight ws)"

text \<open>
  The accounting invariant of a pool, for any type of statistics: the task source has
  returned \<open>0, 1, 2, ...\<close> in this order; the tasks below \<open>requestCount\<close> that were handed
  out are exactly those recorded and those in flight, each once; and a worker has exited
  only after the counter passed \<open>requestCount\<close>.
\<close>

definition accounted :: "nat \<Rightarrow> 's pool_state \<Rightarrow> bool" where
  "accounted rc st \<longleftrightarrow>
     polls (trace st) = [0..<tasksStarted st] \<and>
     mset (records (trace st)) + pending (workers st) = mset [0..<min (tasksStarted st) rc] \<and>
     (Exited \<in> set (workers st) \<longrightarrow> rc < tasksStarted st)"

text \<open>
  The outcome of a unit of work as the collaborator's answers decide it, and the outcomes
  of the completions of a run in the order in which they happen.
\<close>

definition action_outcome :: "action_env \<Rightarrow> action_result" where
  "action_outcome env =
     (case try_block env of
        (client, calls, Inr duration) \<Rightarrow> Success duration
      | (client, calls, Inl err) \<Rightarrow> Failure err)"

fun duration_of :: "action_result \<Rightarrow> int list" where
  "duration_of (Success d) = [d]"
| "duration_of (Failure err) = []"

fun error_of :: "action_result \<Rightarrow> js_error list" where
  "error_of (Success d) = []"
| "error_of (Failure err) = [err]"

definition durations :: "action_result list \<Rightarrow> int list" where
  "durations rs = concat (map duration_of rs)"

definition failures :: "action_result list \<Rightarrow> js_error list" where
  "failures rs = concat (map error_of rs)"

definition results :: "(nat \<times> action_env) list \<Rightarrow> action_result list" where
  "results evs = map (\<lambda>ev. action_outcome (snd ev)) evs"

fun finished :: "event_st \<Rightarrow> action_env list" where
  "finished (Finish w env) = [env]"
| "finished (Resume w) = []"

definition results_st :: "event_st list \<Rightarrow> action_result list" where
  "results_st evs = map action_outcome (concat (map finished evs))"

text \<open>
  The task source on its own: the indices returned by \<open>k\<close> successive calls, the counter
  being \<open>n\<close> before the first. The calls a worker \<open>w\<close> made, by the indices they
  returned, in order.
\<close>

fun issue :: "nat \<Rightarrow> nat \<Rightarrow> nat list" where
  "issue 0 n = []"
| "issue (Suc k) n = (case nextIndex n of (taskIndex, n') \<Rightarrow> taskIndex # issue k n')"

fun polled_by :: "nat \<Rightarrow> label \<Rightarrow> nat list" where
  "polled_by w (Polled w' i) = (if w' = w then [i] else [])"
| "polled_by w (Recorded w' i) = []"

definition polls_of :: "nat \<Rightarrow> label list \<Rightarrow> nat list" where
  "polls_of w tr = concat (map (polled_by w) tr)"

text \<open>
  The invariant on the calls of each worker: a worker that has not exited was only ever
  given tasks; a worker that has exited was given tasks and then, at its last call, an
  index that is no task; and only the workers of the pool have called.
\<close>

definition polling :: "nat \<Rightarrow> 's pool_state \<Rightarrow> bool" where
  "polling rc st \<longleftrightarrow>
     (\<forall>w. (w < length (workers st) \<and> workers st ! w \<noteq> Exited \<longrightarrow>
             list_all (\<lambda>i. i < rc) (polls_of w (trace st))) \<and>
          (w < length (workers st) \<and> workers st ! w = Exited \<longrightarrow>
             (\<exists>js j. polls_of w (trace st) = js @ [j] \<and> list_all (\<lambda>i. i < rc) js \<and> rc \<le> j)) \<and>
          (length (workers st) \<le> w \<longrightarrow> polls_of w (trace st) = []))"

text \<open>
  What a result of the loop says about the run, when the loop was entered at concurrency
  \<open>cur\<close> with the report \<open>rep\<close>: the entries added are the results of the stages run, one
  per stage, at \<open>cur\<close>, \<open>cur + step\<close>, ..., all within the ceiling; none but the last added
  can have a critical failure; after the exit at the ceiling none has one and the next
  concurrency is beyond the ceiling; after the exit on a failure the last has one, and the
  stable limit reported is its concurrency minus the step.
\<close>

definition ramp_ok ::
  "(nat \<Rightarrow> int \<Rightarrow> StageResult option) \<Rightarrow> int \<Rightarrow> int \<Rightarrow> int \<Rightarrow> StageResult list
     \<Rightarrow> StageResult list \<times> terminal \<Rightarrow> bool" where
  "ramp_ok stage step maxc cur rep y \<longleftrightarrow>
     (\<exists>new. fst y = rep @ new \<and>
        (\<forall>k<length new.
            stage (length rep + k) (cur + int k * step) = Some (new ! k) \<and>
            cur + int k * step \<le> maxc \<and>
            (Suc k < length new \<longrightarrow> \<not> hasCriticalFailure (new ! k))) \<and>
        (case snd y of
           StoppedAtCeiling \<Rightarrow>
             (\<forall>k<length new. \<not> hasCriticalFailure (new ! k)) \<and>
             maxc < cur + int (length new) * step
         | StoppedOnFailure sl \<Rightarrow>
             new \<noteq> [] \<and> hasCriticalFailure (last new) \<and>
             sl = cur + int (length new - 1) * step - step))"

text \<open>
  For the progress of a pool: no worker of a stage of \<open>index.js\<close> is ever in the state
  \<open>Returned\<close>; the number of workers in this state in \<open>stress_test.js\<close>.
\<close>

definition awaiting_only :: "worker list \<Rightarrow> bool" where
  "awaiting_only ws \<longleftrightarrow> list_all (\<lambda>wk. case wk of Returned i \<Rightarrow> False | _ \<Rightarrow> True) ws"

fun returned :: "worker \<Rightarrow> nat" where
  "returned (Returned i) = 1"
| "returned _ = 0"

definition returns :: "worker list \<Rightarrow> nat" where
  "returns ws = sum_list (map returned ws)"

section \<open>Sample inputs\<close>

text \<open>
  A unit of work that succeeds after 7 ms, one whose connection attempt times out, and one
  whose INSERT is refused by the server for a reason that is no connection error.
\<close>

definition env_ok :: action_env where
  "env_ok =
     \<lparr>connect_err = None, insert_err = None, select_err = None,
      now_start = 100, now_end = 107\<rparr>"

definition env_timeout :: action_env where
  "env_timeout =
     \<lparr>connect_err = Some \<lparr>code = None, message = ''timeout exceeded when trying to connect''\<rparr>,
      insert_err = None, select_err = None, now_start = 100, now_end = 5100\<rparr>"

definition env_refused :: action_env where
  "env_refused =
     \<lparr>connect_err = None,
      insert_err = Some \<lparr>code = Some ''22001'', message = ''value too long for type character varying(50)''\<rparr>,
      select_err = None, now_start = 100, now_end = 103\<rparr>"

text \<open>
  A stage of 3 requests on 2 workers in \<open>index.js\<close>, and a run of 3 requests on 2 workers
  in \<open>stress_test.js\<close>.
\<close>

definition sample_completions :: "(nat \<times> action_env) list" where
  "sample_completions = [(1, env_ok), (0, env_timeout), (1, env_ok)]"

definition sample_events_st :: "event_st list" where
  "sample_events_st =
     [Finish 1 env_ok, Finish 0 env_timeout, Resume 0, Finish 0 env_ok, Resume 1, Resume 0]"

text \<open>
  The same stage and the same run with the readings of the clock; a unit of work, a stage
  and a run that end within the millisecond in which they started; a stage of no request.
\<close>

definition sample_stage_env :: "(nat \<times> action_env) run_env" where
  "sample_stage_env = \<lparr>completions = sample_completions, startTime = 1000, endTime = 6500\<rparr>"

definition sample_run_env :: "event_st run_env" where
  "sample_run_env = \<lparr>completions = sample_events_st, startTime = 1000, endTime = 6500\<rparr>"

definition env_instant :: action_env where
  "env_instant =
     \<lparr>connect_err = None, insert_err = None, select_err = None,
      now_start = 1000, now_end = 1000\<rparr>"

definition stage_env_instant :: "(nat \<times> action_env) run_env" where
  "stage_env_instant = \<lparr>completions = [(0, env_instant)], startTime = 1000, endTime = 1000\<rparr>"

definition stage_env_empty :: "(nat \<times> action_env) run_env" where
  "stage_env_empty = \<lparr>completions = [], startTime = 1000, endTime = 1000\<rparr>"

definition run_env_instant :: "event_st run_env" where
  "run_env_instant =
     \<lparr>completions = [Finish 0 env_instant, Resume 0], startTime = 1000, endTime = 1000\<rparr>"

text \<open>
  Stages of one worker: 40 requests of which the last times out; 20 requests of which the
  last is refused; 10 requests of which the last is refused.
\<close>

definition stage_env_one_timeout :: "(nat \<times> action_env) run_env" where
  "stage_env_one_timeout =
     \<lparr>completions = replicate 39 (0, env_ok) @ [(0, env_timeout)],
      startTime = 1000, endTime = 9000\<rparr>"

definition stage_env_threshold :: "(nat \<times> action_env) run_env" where
  "stage_env_threshold =
     \<lparr>completions = replicate 19 (0, env_ok) @ [(0, env_refused)],
      startTime = 1000, endTime = 9000\<rparr>"

definition stage_env_above :: "(nat \<times> action_env) run_env" where
  "stage_env_above =
     \<lparr>completions = replicate 9 (0, env_ok) @ [(0, env_refused)],
      startTime = 1000, endTime = 9000\<rparr>"

text \<open>The beginning of the sample stage and of the sample run, up to the second outcome.\<close>

definition sample_prefix :: "(nat \<times> action_env) list" where
  "sample_prefix = [(1, env_ok), (0, env_timeout)]"

definition sample_prefix_st :: "event_st list" where
  "sample_prefix_st = [Finish 1 env_ok, Finish 0 env_timeout, Resume 0]"

text \<open>
  Progressive runs with one request per stage: every stage succeeds; the third stage (at
  concurrency 30 when the run starts at 10 with a step of 10) times out.
\<close>

definition ramp_envs :: "nat \<Rightarrow> (nat \<times> action_env) run_env" where
  "ramp_envs k = \<lparr>completions = [(0, env_ok)], startTime = 1000, endTime = 2000\<rparr>"

definition failing_envs :: "nat \<Rightarrow> (nat \<times> action_env) run_env" where
  "failing_envs k =
     (if k = 2 then \<lparr>completions = [(0, env_timeout)], startTime = 1000, endTime = 7000\<rparr>
      else \<lparr>completions = [(0, env_ok)], startTime = 1000, endTime = 2000\<rparr>)"

section \<open>The accounting invariant\<close>

lemma polls_simps [simp]:
  "polls [] = []" "polls (tr @ tr') = polls tr @ polls tr'"
  "polls (l # tr) = polled l @ polls tr"
  by (simp_all add: polls_def)

lemma records_simps [simp]:
  "records [] = []" "records (tr @ tr') = records tr @ records tr'"
  "records (l # tr) = recorded l @ records tr"
  by (simp_all add: records_def)

lemma pending_simps [simp]:
  "pending [] = {#}" "pending (ws @ ws') = pending ws + pending ws'"
  "pending [wk] = in_flight wk"
  by (simp_all add: pending_def)

lemma pending_update:
  "w < length ws \<Longrightarrow> pending (ws[w := wk]) + in_flight (ws ! w) = pending ws + in_flight wk"
proof (induction ws arbitrary: w)
  case Nil
  then show ?case by simp
next
  case (Cons a ws)
  show ?case
  proof (cases w)
    case 0
    then show ?thesis by (simp add: pending_def)
  next
    case (Suc v)
    with Cons.prems have "v < length ws" by simp
    from Cons.IH [OF this] show ?thesis
      using Suc by (simp add: pending_def ac_simps)
  qed
qed

lemma pending_all_exited: "list_all (\<lambda>wk. wk = Exited) ws \<Longrightarrow> pending ws = {#}"
  by (induction ws) (auto simp: pending_def)

lemma loop_head_cases:
  obtains (exhausted) "rc \<le> tasksStarted st"
      "loop_head rc w st = (Exited, st\<lparr>tasksStarted := tasksStarted st + 1, trace := trace st @ [Polled w (tasksStarted st)]\<rparr>)"
  | (task) "tasksStarted st < rc"
      "loop_head rc w st = (Awaiting (tasksStarted st), st\<lparr>tasksStarted := tasksStarted st + 1, trace := trace st @ [Polled w (tasksStarted st)]\<rparr>)"
  by (cases "rc \<le> tasksStarted st") (auto simp: loop_head_def nextIndex_def)

lemma accounted_start_worker:
  assumes "accounted rc st"
  shows "accounted rc (start_worker rc st)"
proof (cases rule: loop_head_cases [of rc st "length (workers st)"])
  case exhausted
  with assms show ?thesis
    by (auto simp: accounted_def start_worker_def min_def)
next
  case task
  with assms show ?thesis
    by (auto simp: accounted_def start_worker_def min_def)
qed

lemma accounted_spawn: "accounted rc st \<Longrightarrow> accounted rc (spawn_workers rc k st)"
  by (induction k arbitrary: st) (simp_all add: accounted_start_worker)

lemma accounted_init: "accounted rc init_stage"
  by (simp add: accounted_def init_stage_def)

lemma set_update_Exited:
  "Exited \<in> set (ws[w := wk]) \<Longrightarrow> wk = Exited \<or> Exited \<in> set ws"
  using set_update_subset_insert [of ws w wk] by auto

lemma accounted_record_continue:
  assumes acc: "accounted rc st" and w: "w < length (workers st)"
    and aw: "workers st ! w = Awaiting i"
  shows "accounted rc (continue_worker rc w (st\<lparr>stats := s', trace := trace st @ [Recorded w i]\<rparr>))"
proof -
  let ?st = "st\<lparr>stats := s', trace := trace st @ [Recorded w i]\<rparr>"
  have pu: "pending ((workers st)[w := wk]) + {#i#} = pending (workers st) + in_flight wk" for wk
    using pending_update [OF w, of wk] aw by simp
  from acc have a1: "polls (trace st) = [0..<tasksStarted st]"
    and a2: "mset (records (trace st)) + pending (workers st) = mset [0..<min (tasksStarted st) rc]"
    and a3: "Exited \<in> set (workers st) \<longrightarrow> rc < tasksStarted st"
    by (simp_all add: accounted_def)
  show ?thesis
  proof (cases rule: loop_head_cases [of rc ?st w])
    case exhausted
    then have m: "min (tasksStarted st + 1) rc = min (tasksStarted st) rc" by simp
    have "mset (records (trace st)) + {#i#} + pending ((workers st)[w := Exited])
          = mset (records (trace st)) + pending (workers st)"
      using pu [of Exited] by (simp add: ac_simps)
    with exhausted a1 a2 show ?thesis
      by (simp add: accounted_def continue_worker_def m)
  next
    case task
    then have m: "min (tasksStarted st + 1) rc = tasksStarted st + 1"
      "min (tasksStarted st) rc = tasksStarted st" by simp_all
    have "mset (records (trace st)) + {#i#} + pending ((workers st)[w := Awaiting (tasksStarted st)])
          = mset (records (trace st)) + pending (workers st) + {#tasksStarted st#}"
      using pu [of "Awaiting (tasksStarted st)"] by (simp add: ac_simps)
    moreover have "Exited \<in> set ((workers st)[w := Awaiting (tasksStarted st)]) \<Longrightarrow> Exited \<in> set (workers st)"
      using set_update_Exited by fastforce
    ultimately show ?thesis
      using task a1 a2 a3 by (auto simp: accounted_def continue_worker_def m)
  qed
qed

lemma resume_SomeE:
  assumes "resume rc st ev = Some st'"
  obtains w env i where "ev = (w, env)" "w < length (workers st)" "workers st ! w = Awaiting i"
    "st' = continue_worker rc w (st\<lparr>stats := record_result (stats st) (fst (performUserAction env)),
                                     trace := trace st @ [Recorded w i]\<rparr>)"
  using assms
  by (cases ev) (auto simp: resume_def Let_def split: if_splits worker.splits)

lemma accounted_resume:
  "accounted rc st \<Longrightarrow> resume rc st ev = Some st' \<Longrightarrow> accounted rc st'"
  by (erule resume_SomeE) (simp add: accounted_record_continue)

lemma accounted_run_events:
  "accounted rc st \<Longrightarrow> run_events rc st evs = Some st' \<Longrightarrow> accounted rc st'"
  by (induction evs arbitrary: st) (auto split: option.splits dest: accounted_resume)

subsection \<open>Facts on the loop head\<close>

lemma continue_worker_eq:
  "continue_worker rc w st =
     st\<lparr>tasksStarted := tasksStarted st + 1,
        trace := trace st @ [Polled w (tasksStarted st)],
        workers := (workers st)[w := if rc \<le> tasksStarted st then Exited else Awaiting (tasksStarted st)]\<rparr>"
  by (simp add: continue_worker_def loop_head_def nextIndex_def)

lemma start_worker_eq:
  "start_worker rc st =
     st\<lparr>tasksStarted := tasksStarted st + 1,
        trace := trace st @ [Polled (length (workers st)) (tasksStarted st)],
        workers := workers st @ [if rc \<le> tasksStarted st then Exited else Awaiting (tasksStarted st)]\<rparr>"
  by (simp add: start_worker_def loop_head_def nextIndex_def)

lemma continue_worker_fields [simp]:
  "stats (continue_worker rc w st) = stats st"
  "length (workers (continue_worker rc w st)) = length (workers st)"
  by (simp_all add: continue_worker_eq)

lemma start_worker_fields [simp]:
  "stats (start_worker rc st) = stats st"
  "length (workers (start_worker rc st)) = Suc (length (workers st))"
  by (simp_all add: start_worker_eq)

lemma spawn_workers_fields [simp]:
  "stats (spawn_workers rc k st) = stats st"
  "length (workers (spawn_workers rc k st)) = length (workers st) + k"
  by (induction k arbitrary: st) simp_all

lemma accounted_complete:
  assumes "accounted rc st" "all_exited st" "workers st \<noteq> []"
  shows "mset (records (trace st)) = mset [0..<rc]"
proof -
  from assms(2,3) have "Exited \<in> set (workers st)"
    by (cases "workers st") (auto simp: all_exited_def)
  with assms(1) have "rc < tasksStarted st" by (simp add: accounted_def)
  then have "min (tasksStarted st) rc = rc" by simp
  moreover from assms(2) have "pending (workers st) = {#}"
    by (simp add: all_exited_def pending_all_exited)
  ultimately show ?thesis using assms(1) by (simp add: accounted_def)
qed

subsection \<open>index.js: statistics against the completions\<close>

lemma performUserAction_outcome: "fst (performUserAction env) = action_outcome env"
  by (simp add: performUserAction_def action_outcome_def split: prod.splits sum.splits)

lemma length_durations_failures: "length (durations rs) + length (failures rs) = length rs"
proof (induction rs)
  case Nil
  show ?case by (simp add: durations_def failures_def)
next
  case (Cons r rs)
  then show ?case by (cases r) (simp_all add: durations_def failures_def)
qed

lemma record_result_Success:
  "record_result s (Success d) =
     s\<lparr>completed := completed s + 1, totalDuration := totalDuration s + d,
       latencies := latencies s @ [d]\<rparr>"
  by (simp add: record_result_def)

lemma record_result_fields:
  "completed (record_result s r) = completed s + length (duration_of r)"
  "errors (record_result s r) = errors s + length (error_of r)"
  "latencies (record_result s r) = latencies s @ duration_of r"
  "totalDuration (record_result s r) = totalDuration s + sum_list (duration_of r)"
  "connErrors (record_result s r) = connErrors s + length (filter is_conn_error (error_of r))"
  by (cases r; simp add: record_result_def Let_def)+

lemma resume_stats:
  assumes "resume rc st ev = Some st'"
  shows "stats st' = record_result (stats st) (action_outcome (snd ev))"
    and "length (workers st') = length (workers st)"
    and "length (records (trace st')) = Suc (length (records (trace st)))"
  using assms by (auto elim!: resume_SomeE simp: continue_worker_eq performUserAction_outcome)

lemma run_events_stats:
  assumes "run_events rc st evs = Some st'"
  shows "completed (stats st') = completed (stats st) + length (durations (results evs))
       \<and> errors (stats st') = errors (stats st) + length (failures (results evs))
       \<and> latencies (stats st') = latencies (stats st) @ durations (results evs)
       \<and> totalDuration (stats st') = totalDuration (stats st) + sum_list (durations (results evs))
       \<and> connErrors (stats st') = connErrors (stats st) + length (filter is_conn_error (failures (results evs)))
       \<and> length (workers st') = length (workers st)
       \<and> length (records (trace st')) = length (records (trace st)) + length evs"
  using assms
proof (induction evs arbitrary: st)
  case Nil
  then show ?case by (simp add: results_def durations_def failures_def)
next
  case (Cons ev evs)
  from Cons.prems obtain st1 where r: "resume rc st ev = Some st1"
    and rest: "run_events rc st1 evs = Some st'"
    by (auto split: option.splits)
  note ih = Cons.IH [OF rest]
  note rs = resume_stats [OF r]
  have res: "results (ev # evs) = action_outcome (snd ev) # results evs"
    by (simp add: results_def)
  show ?case
    unfolding res using ih
    by (simp add: rs record_result_fields durations_def failures_def)
qed

lemma init_stage_fields [simp]:
  "completed (stats init_stage) = 0" "errors (stats init_stage) = 0"
  "latencies (stats init_stage) = []" "totalDuration (stats init_stage) = 0"
  "connErrors (stats init_stage) = 0" "workers init_stage = []" "trace init_stage = []"
  "tasksStarted init_stage = 0"
  by (simp_all add: init_stage_def)

lemma run_pool_SomeE:
  assumes "run_pool c rc evs = Some st"
  obtains "run_events rc (spawn_workers rc (nat c) init_stage) evs = Some st" "all_exited st"
  using assms by (auto simp: run_pool_def split: option.splits if_splits)

lemma run_pool_accounted:
  assumes "run_pool c rc evs = Some st"
  shows "accounted rc st"
  using assms accounted_run_events [OF accounted_spawn [OF accounted_init]]
  by (auto elim!: run_pool_SomeE)

lemma run_pool_stats:
  assumes "run_pool c rc evs = Some st"
  shows "completed (stats st) = length (durations (results evs))"
    and "errors (stats st) = length (failures (results evs))"
    and "latencies (stats st) = durations (results evs)"
    and "totalDuration (stats st) = sum_list (durations (results evs))"
    and "connErrors (stats st) = length (filter is_conn_error (failures (results evs)))"
    and "length (workers st) = nat c"
    and "length (records (trace st)) = length evs"
proof -
  from assms have r: "run_events rc (spawn_workers rc (nat c) init_stage) evs = Some st"
    by (rule run_pool_SomeE)
  have t: "records (trace (spawn_workers rc k st0)) = records (trace st0)" for k and st0 :: "stage_stats pool_state"
    by (induction k arbitrary: st0) (simp_all add: start_worker_eq)
  from run_events_stats [OF r] t [of "nat c" init_stage]
  show "completed (stats st) = length (durations (results evs))"
    and "errors (stats st) = length (failures (results evs))"
    and "latencies (stats st) = durations (results evs)"
    and "totalDuration (stats st) = sum_list (durations (results evs))"
    and "connErrors (stats st) = length (filter is_conn_error (failures (results evs)))"
    and "length (workers st) = nat c"
    and "length (records (trace st)) = length evs"
    by simp_all
qed

lemma run_pool_complete:
  assumes "run_pool c rc evs = Some st" "1 \<le> c"
  shows "mset (records (trace st)) = mset [0..<rc]"
proof -
  from run_pool_stats(6) [OF assms(1)] assms(2) have "workers st \<noteq> []" by auto
  moreover from assms(1) have "all_exited st" by (rule run_pool_SomeE)
  ultimately show ?thesis using run_pool_accounted [OF assms(1)] by (simp add: accounted_complete)
qed

lemma runStage_counts:
  assumes "run_pool c rc evs = Some st" "1 \<le> c"
  shows "completed (stats st) + errors (stats st) = rc"
proof -
  have "completed (stats st) + errors (stats st) = length evs"
    using run_pool_stats(1,2) [OF assms(1)] length_durations_failures [of "results evs"]
    by (simp add: results_def)
  also have "\<dots> = size (mset (records (trace st)))"
    using run_pool_stats(7) [OF assms(1)] by simp
  also have "\<dots> = rc"
    by (simp add: run_pool_complete [OF assms])
  finally show ?thesis .
qed

subsection \<open>stress_test.js\<close>

lemma performUserAction_st_fields:
  "completed (fst (performUserAction_st s env)) = completed s + length (duration_of (action_outcome env))"
  "errors (fst (performUserAction_st s env)) = errors s + length (error_of (action_outcome env))"
  "latencies (fst (performUserAction_st s env)) = latencies s @ duration_of (action_outcome env)"
  "totalDuration (fst (performUserAction_st s env)) = totalDuration s + sum_list (duration_of (action_outcome env))"
  by (simp_all add: performUserAction_st_def action_outcome_def split: prod.splits sum.splits)

lemma accounted_finish:
  assumes acc: "accounted rc st" and w: "w < length (workers st)"
    and aw: "workers st ! w = Awaiting i"
  shows "accounted rc (st\<lparr>stats := s', workers := (workers st)[w := Returned i],
                          trace := trace st @ [Recorded w i]\<rparr>)"
proof -
  from acc have a1: "polls (trace st) = [0..<tasksStarted st]"
    and a2: "mset (records (trace st)) + pending (workers st) = mset [0..<min (tasksStarted st) rc]"
    and a3: "Exited \<in> set (workers st) \<longrightarrow> rc < tasksStarted st"
    by (simp_all add: accounted_def)
  have p: "pending ((workers st)[w := Returned i]) + {#i#} = pending (workers st)"
    using pending_update [OF w, of "Returned i"] aw by simp
  have "mset (records (trace st)) + {#i#} + pending ((workers st)[w := Returned i])
        = mset (records (trace st)) + (pending ((workers st)[w := Returned i]) + {#i#})"
    by (simp only: ac_simps)
  also have "\<dots> = mset (records (trace st)) + pending (workers st)"
    by (simp only: p)
  finally have "mset (records (trace st)) + {#i#} + pending ((workers st)[w := Returned i])
        = mset (records (trace st)) + pending (workers st)" .
  with a2 have b2: "mset (records (trace st @ [Recorded w i])) + pending ((workers st)[w := Returned i])
        = mset [0..<min (tasksStarted st) rc]"
    by simp
  have b3: "Exited \<in> set ((workers st)[w := Returned i]) \<longrightarrow> rc < tasksStarted st"
    using set_update_Exited [of "workers st" w "Returned i"] a3 by auto
  show ?thesis
    unfolding accounted_def using a1 b2 b3 by simp
qed

lemma accounted_continue:
  assumes acc: "accounted rc st" and w: "w < length (workers st)"
    and aw: "workers st ! w = Returned i"
  shows "accounted rc (continue_worker rc w st)"
proof -
  have pu: "pending ((workers st)[w := wk]) = pending (workers st) + in_flight wk" for wk
    using pending_update [OF w, of wk] aw by simp
  have ex: "Exited \<in> set ((workers st)[w := Awaiting k]) \<Longrightarrow> Exited \<in> set (workers st)" for k
    using set_update_Exited by fastforce
  show ?thesis
  proof (cases "rc \<le> tasksStarted st")
    case True
    then have "min (tasksStarted st + 1) rc = min (tasksStarted st) rc" by simp
    with True acc show ?thesis
      by (simp add: accounted_def continue_worker_eq pu)
  next
    case False
    then have "min (tasksStarted st + 1) rc = tasksStarted st + 1"
      "min (tasksStarted st) rc = tasksStarted st" by simp_all
    with False acc show ?thesis
      by (auto simp: accounted_def continue_worker_eq pu dest: ex)
  qed
qed

lemma step_st_SomeE:
  assumes "step_st rc st ev = Some st'"
  obtains (finish) w env i where "ev = Finish w env" "w < length (workers st)"
      "workers st ! w = Awaiting i"
      "st' = st\<lparr>stats := fst (performUserAction_st (stats st) env),
                 workers := (workers st)[w := Returned i],
                 trace := trace st @ [Recorded w i]\<rparr>"
  | (resume) w i where "ev = Resume w" "w < length (workers st)"
      "workers st ! w = Returned i" "st' = continue_worker rc w st"
  using assms
  by (cases ev) (auto simp: step_st_def split: if_splits worker.splits)

lemma accounted_step_st:
  "accounted rc st \<Longrightarrow> step_st rc st ev = Some st' \<Longrightarrow> accounted rc st'"
  by (erule step_st_SomeE) (simp_all add: accounted_finish accounted_continue)

lemma accounted_run_events_st:
  "accounted rc st \<Longrightarrow> run_events_st rc st evs = Some st' \<Longrightarrow> accounted rc st'"
  by (induction evs arbitrary: st) (auto split: option.splits dest: accounted_step_st)

lemma step_st_stats:
  assumes "step_st rc st ev = Some st'"
  shows "completed (stats st') = completed (stats st) + length (durations (results_st [ev]))"
    and "errors (stats st') = errors (stats st) + length (failures (results_st [ev]))"
    and "latencies (stats st') = latencies (stats st) @ durations (results_st [ev])"
    and "totalDuration (stats st') = totalDuration (stats st) + sum_list (durations (results_st [ev]))"
    and "length (workers st') = length (workers st)"
    and "length (records (trace st')) = length (records (trace st)) + length (results_st [ev])"
  using assms
  by (auto elim!: step_st_SomeE
      simp: performUserAction_st_fields results_st_def durations_def failures_def continue_worker_eq)

lemma results_st_Cons: "results_st (ev # evs) = results_st [ev] @ results_st evs"
  by (simp add: results_st_def)

lemma durations_append [simp]: "durations (rs @ rs') = durations rs @ durations rs'"
  by (simp add: durations_def)

lemma failures_append [simp]: "failures (rs @ rs') = failures rs @ failures rs'"
  by (simp add: failures_def)

lemma run_events_st_stats:
  assumes "run_events_st rc st evs = Some st'"
  shows "completed (stats st') = completed (stats st) + length (durations (results_st evs))
       \<and> errors (stats st') = errors (stats st) + length (failures (results_st evs))
       \<and> latencies (stats st') = latencies (stats st) @ durations (results_st evs)
       \<and> totalDuration (stats st') = totalDuration (stats st) + sum_list (durations (results_st evs))
       \<and> length (workers st') = length (workers st)
       \<and> length (records (trace st')) = length (records (trace st)) + length (results_st evs)"
  using assms
proof (induction evs arbitrary: st)
  case Nil
  then show ?case by (simp add: results_st_def durations_def failures_def)
next
  case (Cons ev evs)
  from Cons.prems obtain st1 where r: "step_st rc st ev = Some st1"
    and rest: "run_events_st rc st1 evs = Some st'"
    by (auto split: option.splits)
  note ih = Cons.IH [OF rest]
  note rs = step_st_stats [OF r]
  show ?case
    unfolding results_st_Cons [of ev evs] using ih by (simp add: rs)
qed

lemma init_run_fields [simp]:
  "completed (stats init_run) = 0" "errors (stats init_run) = 0"
  "latencies (stats init_run) = []" "totalDuration (stats init_run) = 0"
  "workers init_run = []" "trace init_run = []" "tasksStarted init_run = 0"
  by (simp_all add: init_run_def)

lemma accounted_init_run: "accounted rc init_run"
  by (simp add: accounted_def)

lemma run_pool_st_SomeE:
  assumes "run_pool_st c rc evs = Some st"
  obtains "run_events_st rc (spawn_workers rc (nat c) init_run) evs = Some st" "all_exited st"
  using assms by (auto simp: run_pool_st_def split: option.splits if_splits)

lemma run_pool_st_accounted:
  assumes "run_pool_st c rc evs = Some st"
  shows "accounted rc st"
  using assms accounted_run_events_st [OF accounted_spawn [OF accounted_init_run]]
  by (auto elim!: run_pool_st_SomeE)

lemma records_spawn [simp]: "records (trace (spawn_workers rc k st)) = records (trace st)"
  by (induction k arbitrary: st) (simp_all add: start_worker_eq)

lemma run_pool_st_stats:
  assumes "run_pool_st c rc evs = Some st"
  shows "completed (stats st) = length (durations (results_st evs))"
    and "errors (stats st) = length (failures (results_st evs))"
    and "latencies (stats st) = durations (results_st evs)"
    and "totalDuration (stats st) = sum_list (durations (results_st evs))"
    and "length (workers st) = nat c"
    and "length (records (trace st)) = length (results_st evs)"
proof -
  from assms have r: "run_events_st rc (spawn_workers rc (nat c) init_run) evs = Some st"
    by (rule run_pool_st_SomeE)
  from run_events_st_stats [OF r]
  show "completed (stats st) = length (durations (results_st evs))"
    and "errors (stats st) = length (failures (results_st evs))"
    and "latencies (stats st) = durations (results_st evs)"
    and "totalDuration (stats st) = sum_list (durations (results_st evs))"
    and "length (workers st) = nat c"
    and "length (records (trace st)) = length (results_st evs)"
    by simp_all
qed

lemma run_pool_st_complete:
  assumes "run_pool_st c rc evs = Some st" "1 \<le> c"
  shows "mset (records (trace st)) = mset [0..<rc]"
proof -
  from run_pool_st_stats(5) [OF assms(1)] assms(2) have "workers st \<noteq> []" by auto
  moreover from assms(1) have "all_exited st" by (rule run_pool_st_SomeE)
  ultimately show ?thesis using run_pool_st_accounted [OF assms(1)] by (simp add: accounted_complete)
qed

lemma runStressTest_counts:
  assumes "run_pool_st c rc evs = Some st" "1 \<le> c"
  shows "completed (stats st) + errors (stats st) = rc"
proof -
  have "completed (stats st) + errors (stats st) = length (results_st evs)"
    using run_pool_st_stats(1,2) [OF assms(1)] length_durations_failures [of "results_st evs"]
    by simp
  also have "\<dots> = size (mset (records (trace st)))"
    using run_pool_st_stats(6) [OF assms(1)] by simp
  also have "\<dots> = rc"
    by (simp add: run_pool_st_complete [OF assms])
  finally show ?thesis .
qed

section \<open>Progress of a pool\<close>

text \<open>
  A pool never outlives its requests, and it can always go on until every worker has
  exited: while a worker has not exited some event is possible, and each event brings the
  end nearer. So for every concurrency and every number of requests there are completions
  with which the pool completes.
\<close>

lemma accounted_records_bound:
  assumes "accounted rc st"
  shows "length (records (trace st)) + size (pending (workers st)) \<le> rc"
proof -
  from assms have "mset (records (trace st)) + pending (workers st) = mset [0..<min (tasksStarted st) rc]"
    by (simp add: accounted_def)
  then have "size (mset (records (trace st)) + pending (workers st)) = min (tasksStarted st) rc"
    by simp
  then show ?thesis by simp
qed

lemma pending_Awaiting:
  "w < length ws \<Longrightarrow> ws ! w = Awaiting i \<Longrightarrow> 0 < size (pending ws)"
proof (induction ws arbitrary: w)
  case Nil
  then show ?case by simp
next
  case (Cons a ws)
  then show ?case by (cases w) (simp_all add: pending_def)
qed

lemma awaiting_only_continue:
  "awaiting_only (workers st) \<Longrightarrow> awaiting_only (workers (continue_worker rc w st))"
  by (auto simp: awaiting_only_def continue_worker_eq list_all_iff dest!: set_update_subset_insert [THEN subsetD])

lemma awaiting_only_resume:
  "awaiting_only (workers st) \<Longrightarrow> resume rc st ev = Some st' \<Longrightarrow> awaiting_only (workers st')"
  by (erule resume_SomeE) (simp add: awaiting_only_continue)

lemma awaiting_only_spawn:
  "awaiting_only (workers st) \<Longrightarrow> awaiting_only (workers (spawn_workers rc k st))"
  by (induction k arbitrary: st) (simp_all add: awaiting_only_def start_worker_eq)

lemma not_all_exited_Awaiting:
  assumes "awaiting_only (workers st)" "\<not> all_exited st"
  obtains w i where "w < length (workers st)" "workers st ! w = Awaiting i"
proof -
  from assms(2) obtain wk where wk: "wk \<in> set (workers st)" "wk \<noteq> Exited"
    by (auto simp: all_exited_def list_all_iff)
  with assms(1) obtain i where "wk = Awaiting i"
    by (cases wk) (auto simp: awaiting_only_def list_all_iff)
  with wk(1) obtain w where "w < length (workers st)" "workers st ! w = Awaiting i"
    by (auto simp: in_set_conv_nth)
  then show ?thesis by (rule that)
qed

lemma resume_Awaiting:
  "w < length (workers st) \<Longrightarrow> workers st ! w = Awaiting i \<Longrightarrow> \<exists>st'. resume rc st (w, env) = Some st'"
  by (simp add: resume_def Let_def)

lemma stage_can_finish:
  assumes "accounted rc st" "awaiting_only (workers st)"
  shows "\<exists>evs st'. run_events rc st evs = Some st' \<and> all_exited st'"
  using assms
proof (induction "rc - length (records (trace st))" arbitrary: st rule: less_induct)
  case less
  show ?case
  proof (cases "all_exited st")
    case True
    then have "run_events rc st [] = Some st \<and> all_exited st" by simp
    then show ?thesis by blast
  next
    case False
    with less.prems(2) obtain w i where w: "w < length (workers st)" "workers st ! w = Awaiting i"
      by (rule not_all_exited_Awaiting)
    then obtain st1 where st1: "resume rc st (w, env_ok) = Some st1"
      using resume_Awaiting by blast
    have "length (records (trace st)) < rc"
      using accounted_records_bound [OF less.prems(1)] pending_Awaiting [OF w] by simp
    moreover have "length (records (trace st1)) = Suc (length (records (trace st)))"
      by (rule resume_stats(3) [OF st1])
    ultimately have "rc - length (records (trace st1)) < rc - length (records (trace st))" by simp
    from less.hyps [OF this accounted_resume [OF less.prems(1) st1] awaiting_only_resume [OF less.prems(2) st1]]
    obtain evs st' where "run_events rc st1 evs = Some st'" "all_exited st'" by blast
    with st1 have "run_events rc st ((w, env_ok) # evs) = Some st' \<and> all_exited st'" by simp
    then show ?thesis by blast
  qed
qed

lemma run_pool_exists: "\<exists>evs st. run_pool c rc evs = Some st"
proof -
  have "awaiting_only (workers (spawn_workers rc (nat c) init_stage))"
    by (rule awaiting_only_spawn) (simp add: awaiting_only_def)
  from stage_can_finish [OF accounted_spawn [OF accounted_init] this]
  obtain evs st where "run_events rc (spawn_workers rc (nat c) init_stage) evs = Some st"
    "all_exited st" by blast
  then have "run_pool c rc evs = Some st" by (simp add: run_pool_def)
  then show ?thesis by blast
qed

lemma run_events_bounded:
  assumes "run_events rc (spawn_workers rc k init_stage) evs = Some st"
  shows "length evs \<le> rc"
proof -
  have "accounted rc st"
    using accounted_run_events [OF accounted_spawn [OF accounted_init] assms] .
  from accounted_records_bound [OF this] run_events_stats [OF assms] show ?thesis by simp
qed


lemma returns_update:
  "w < length ws \<Longrightarrow> returns (ws[w := wk]) + returned (ws ! w) = returns ws + returned wk"
proof (induction ws arbitrary: w)
  case Nil
  then show ?case by simp
next
  case (Cons a ws)
  show ?case
  proof (cases w)
    case 0
    then show ?thesis by (simp add: returns_def)
  next
    case (Suc v)
    with Cons.prems have "v < length ws" by simp
    from Cons.IH [OF this] show ?thesis
      using Suc by (simp add: returns_def)
  qed
qed

lemma not_all_exited_cases:
  assumes "\<not> all_exited st"
  obtains (awaiting) w i where "w < length (workers st)" "workers st ! w = Awaiting i"
  | (returned) w i where "w < length (workers st)" "workers st ! w = Returned i"
proof -
  from assms obtain wk where wk: "wk \<in> set (workers st)" "wk \<noteq> Exited"
    by (auto simp: all_exited_def list_all_iff)
  from wk(1) obtain w where w: "w < length (workers st)" "workers st ! w = wk"
    by (auto simp: in_set_conv_nth)
  with wk(2) awaiting returned show ?thesis by (cases wk) auto
qed

lemma run_can_finish:
  assumes "accounted rc st"
  shows "\<exists>evs st'. run_events_st rc st evs = Some st' \<and> all_exited st'"
  using assms
proof (induction "2 * (rc - length (records (trace st))) + returns (workers st)"
    arbitrary: st rule: less_induct)
  case less
  show ?case
  proof (cases "all_exited st")
    case True
    then have "run_events_st rc st [] = Some st \<and> all_exited st" by simp
    then show ?thesis by blast
  next
    case False
    then show ?thesis
    proof (cases rule: not_all_exited_cases)
      case (awaiting w i)
      let ?st1 = "st\<lparr>stats := fst (performUserAction_st (stats st) env_ok),
                      workers := (workers st)[w := Returned i],
                      trace := trace st @ [Recorded w i]\<rparr>"
      from awaiting have st1: "step_st rc st (Finish w env_ok) = Some ?st1"
        by (simp add: step_st_def)
      have lt: "length (records (trace st)) < rc"
        using accounted_records_bound [OF less.prems] pending_Awaiting [OF awaiting] by simp
      have "returns (workers ?st1) = returns (workers st) + 1"
        using returns_update [OF awaiting(1), of "Returned i"] awaiting(2) by simp
      with lt have "2 * (rc - length (records (trace ?st1))) + returns (workers ?st1)
          < 2 * (rc - length (records (trace st))) + returns (workers st)" by simp
      from less.hyps [OF this accounted_step_st [OF less.prems st1]]
      obtain evs st' where "run_events_st rc ?st1 evs = Some st'" "all_exited st'" by blast
      with st1 have "run_events_st rc st (Finish w env_ok # evs) = Some st' \<and> all_exited st'"
        by simp
      then show ?thesis by blast
    next
      case (returned w i)
      let ?st1 = "continue_worker rc w st"
      from returned have st1: "step_st rc st (Resume w) = Some ?st1"
        by (simp add: step_st_def)
      have "returns (workers ?st1) + 1 = returns (workers st)"
        using returns_update [OF returned(1),
            of "if rc \<le> tasksStarted st then Exited else Awaiting (tasksStarted st)"] returned(2)
        by (simp add: continue_worker_eq)
      then have "2 * (rc - length (records (trace ?st1))) + returns (workers ?st1)
          < 2 * (rc - length (records (trace st))) + returns (workers st)"
        by (simp add: continue_worker_eq)
      from less.hyps [OF this accounted_step_st [OF less.prems st1]]
      obtain evs st' where "run_events_st rc ?st1 evs = Some st'" "all_exited st'" by blast
      with st1 have "run_events_st rc st (Resume w # evs) = Some st' \<and> all_exited st'"
        by simp
      then show ?thesis by blast
    qed
  qed
qed

lemma run_pool_st_exists: "\<exists>evs st. run_pool_st c rc evs = Some st"
proof -
  from run_can_finish [OF accounted_spawn [OF accounted_init_run]]
  obtain evs st where "run_events_st rc (spawn_workers rc (nat c) init_run) evs = Some st"
    "all_exited st" by blast
  then have "run_pool_st c rc evs = Some st" by (simp add: run_pool_st_def)
  then show ?thesis by blast
qed

lemma run_events_st_bounded:
  assumes "run_events_st rc (spawn_workers rc k init_run) evs = Some st"
  shows "length (results_st evs) \<le> rc"
proof -
  have "accounted rc st"
    using accounted_run_events_st [OF accounted_spawn [OF accounted_init_run] assms] .
  from accounted_records_bound [OF this] run_events_st_stats [OF assms] show ?thesis by simp
qed

section \<open>The sample runs\<close>

text \<open>The values of the pools, stages and runs on the sample inputs.\<close>

lemma sample_run_pool:
  "run_pool 2 3 sample_completions =
     Some \<lparr>tasksStarted = 5,
           stats = \<lparr>completed = 2, errors = 1, totalDuration = 14, latencies = [7, 7],
                    connErrors = 1\<rparr>,
           workers = [Exited, Exited],
           trace = [Polled 0 0, Polled 1 1, Recorded 1 1, Polled 1 2, Recorded 0 0,
                    Polled 0 3, Recorded 1 2, Polled 1 4]\<rparr>"
  by code_simp

lemma sample_run_pool_st:
  "run_pool_st 2 3 sample_events_st =
     Some \<lparr>tasksStarted = 5,
           stats = \<lparr>completed = 2, errors = 1, totalDuration = 14, latencies = [7, 7]\<rparr>,
           workers = [Exited, Exited],
           trace = [Polled 0 0, Polled 1 1, Recorded 1 1, Recorded 0 0, Polled 0 2,
                    Recorded 0 2, Polled 1 3, Polled 0 4]\<rparr>"
  by code_simp

lemma sample_runStage:
  "runStage 2 3 sample_stage_env =
     Some \<lparr>concurrency = 2, throughput = Num (4 / 11), avgLatency = Num 7,
           errorRate = Num (1 / 3), hasCriticalFailure = True\<rparr>"
  by code_simp

lemma sample_runStressTest:
  "runStressTest 2 3 sample_run_env =
     Some \<lparr>successful = 2, failed = 1, throughput_st = Num (4 / 11), latency_avg = Num 7,
           latency_p50 = Some 7, latency_p95 = Some 7, latency_p99 = Some 7, latency_max = 7\<rparr>"
  by code_simp

lemma sample_one_timeout:
  "runStage 1 40 stage_env_one_timeout =
     Some \<lparr>concurrency = 1, throughput = Num (39 / 8), avgLatency = Num 7,
           errorRate = Num (1 / 40), hasCriticalFailure = True\<rparr>"
  by code_simp

lemma sample_threshold:
  "runStage 1 20 stage_env_threshold =
     Some \<lparr>concurrency = 1, throughput = Num (19 / 8), avgLatency = Num 7,
           errorRate = Num (1 / 20), hasCriticalFailure = False\<rparr>"
  by code_simp

lemma sample_above:
  "runStage 1 10 stage_env_above =
     Some \<lparr>concurrency = 1, throughput = Num (9 / 8), avgLatency = Num 7,
           errorRate = Num (1 / 10), hasCriticalFailure = True\<rparr>"
  by code_simp

lemma sample_prefix_run:
  "run_events 3 (spawn_workers 3 2 init_stage) sample_prefix =
     Some \<lparr>tasksStarted = 4,
           stats = \<lparr>completed = 1, errors = 1, totalDuration = 7, latencies = [7],
                    connErrors = 1\<rparr>,
           workers = [Exited, Awaiting 2],
           trace = [Polled 0 0, Polled 1 1, Recorded 1 1, Polled 1 2, Recorded 0 0,
                    Polled 0 3]\<rparr>"
  by code_simp

lemma sample_prefix_st_run:
  "run_events_st 3 (spawn_workers 3 2 init_run) sample_prefix_st =
     Some \<lparr>tasksStarted = 3,
           stats = \<lparr>completed = 1, errors = 1, totalDuration = 7, latencies = [7]\<rparr>,
           workers = [Awaiting 2, Returned 1],
           trace = [Polled 0 0, Polled 1 1, Recorded 1 1, Recorded 0 0, Polled 0 2]\<rparr>"
  by code_simp

lemma sample_resume_timeout:
  "resume 3 (spawn_workers 3 2 init_stage) (0, env_timeout) =
     Some \<lparr>tasksStarted = 3,
           stats = \<lparr>completed = 0, errors = 1, totalDuration = 0, latencies = [],
                    connErrors = 1\<rparr>,
           workers = [Awaiting 2, Awaiting 1],
           trace = [Polled 0 0, Polled 1 1, Recorded 0 0, Polled 0 2]\<rparr>"
  by code_simp

lemma sample_finish_ok:
  "step_st 3 (spawn_workers 3 2 init_run) (Finish 0 env_ok) =
     Some \<lparr>tasksStarted = 2,
           stats = \<lparr>completed = 1, errors = 0, totalDuration = 7, latencies = [7]\<rparr>,
           workers = [Returned 0, Awaiting 1],
           trace = [Polled 0 0, Polled 1 1, Recorded 0 0]\<rparr>"
  by code_simp

lemma sample_outcomes:
  "action_outcome env_timeout =
     Failure \<lparr>code = None, message = ''timeout exceeded when trying to connect''\<rparr>"
  "action_outcome env_ok = Success 7"
  by code_simp+

lemma sample_run_events:
  "run_events 3 (spawn_workers 3 2 init_stage) sample_completions =
     Some \<lparr>tasksStarted = 5,
           stats = \<lparr>completed = 2, errors = 1, totalDuration = 14, latencies = [7, 7],
                    connErrors = 1\<rparr>,
           workers = [Exited, Exited],
           trace = [Polled 0 0, Polled 1 1, Recorded 1 1, Polled 1 2, Recorded 0 0,
                    Polled 0 3, Recorded 1 2, Polled 1 4]\<rparr>"
  by code_simp

lemma sample_run_events_st:
  "run_events_st 3 (spawn_workers 3 2 init_run) sample_events_st =
     Some \<lparr>tasksStarted = 5,
           stats = \<lparr>completed = 2, errors = 1, totalDuration = 14, latencies = [7, 7]\<rparr>,
           workers = [Exited, Exited],
           trace = [Polled 0 0, Polled 1 1, Recorded 1 1, Recorded 0 0, Polled 0 2,
                    Recorded 0 2, Polled 1 3, Polled 0 4]\<rparr>"
  by code_simp

lemma sample_stage_10:
  "runStage 10 1 (ramp_envs 0) =
     Some \<lparr>concurrency = 10, throughput = Num 1, avgLatency = Num 7, errorRate = Num 0,
           hasCriticalFailure = False\<rparr>"
  by code_simp

lemma sample_stage_20:
  "runStage 20 1 (ramp_envs 1) =
     Some \<lparr>concurrency = 20, throughput = Num 1, avgLatency = Num 7, errorRate = Num 0,
           hasCriticalFailure = False\<rparr>"
  by code_simp

lemma sample_stage_30:
  "runStage 30 1 (ramp_envs 2) =
     Some \<lparr>concurrency = 30, throughput = Num 1, avgLatency = Num 7, errorRate = Num 0,
           hasCriticalFailure = False\<rparr>"
  by code_simp

lemma sample_stage_30_failing:
  "runStage 30 1 (failing_envs 2) =
     Some \<lparr>concurrency = 30, throughput = Num 0, avgLatency = Num 0, errorRate = Num 1,
           hasCriticalFailure = True\<rparr>"
  by code_simp

section \<open>The claims\<close>

subsection \<open>The outcomes of a stage\<close>

text \<open>
  C1. For a stage run with a concurrency of at least 1 and any \<open>requestCount\<close>, once the
  worker pool has completed (\<open>Promise.all\<close> has returned), the statistics satisfy
  \<open>completed + errors = requestCount\<close>, and the task indices whose outcome was recorded
  are \<open>0, ..., requestCount - 1\<close>, each exactly once: none is lost and none is counted
  twice. Before that, in every state the pool reaches, \<open>completed + errors\<close> is the
  number of outcomes so far and is at most \<open>requestCount\<close>. This holds for the pool of
  \<open>runStage\<close> in \<open>index.js\<close> and for the pool of \<open>runStressTest\<close> in
  \<open>stress_test.js\<close>, whatever the order of the completions.
\<close>

theorem stage_outcomes_counted:
  assumes "1 \<le> c"
  shows "(run_pool c requestCount evs = Some st \<longrightarrow>
            completed (stats st) + errors (stats st) = requestCount \<and>
            mset (records (trace st)) = mset [0..<requestCount])
       \<and> (run_pool_st c requestCount evs' = Some st' \<longrightarrow>
            completed (stats st') + errors (stats st') = requestCount \<and>
            mset (records (trace st')) = mset [0..<requestCount])
       \<and> (run_events requestCount (spawn_workers requestCount (nat c) init_stage) pre = Some mid \<longrightarrow>
            completed (stats mid) + errors (stats mid) = length pre \<and>
            completed (stats mid) + errors (stats mid) \<le> requestCount)
       \<and> (run_events_st requestCount (spawn_workers requestCount (nat c) init_run) pre' = Some mid' \<longrightarrow>
            completed (stats mid') + errors (stats mid') = length (results_st pre') \<and>
            completed (stats mid') + errors (stats mid') \<le> requestCount)"
proof (intro conjI impI)
  assume "run_pool c requestCount evs = Some st"
  with assms show "completed (stats st) + errors (stats st) = requestCount"
    and "mset (records (trace st)) = mset [0..<requestCount]"
    by (simp_all add: runStage_counts run_pool_complete)
next
  assume "run_pool_st c requestCount evs' = Some st'"
  with assms show "completed (stats st') + errors (stats st') = requestCount"
    and "mset (records (trace st')) = mset [0..<requestCount]"
    by (simp_all add: runStressTest_counts run_pool_st_complete)
next
  assume r: "run_events requestCount (spawn_workers requestCount (nat c) init_stage) pre = Some mid"
  from run_events_stats [OF r] length_durations_failures [of "results pre"]
  show n: "completed (stats mid) + errors (stats mid) = length pre"
    by (simp add: results_def)
  from run_events_bounded [OF r] n
  show "completed (stats mid) + errors (stats mid) \<le> requestCount" by simp
next
  assume r: "run_events_st requestCount (spawn_workers requestCount (nat c) init_run) pre' = Some mid'"
  from run_events_st_stats [OF r] length_durations_failures [of "results_st pre'"]
  show n: "completed (stats mid') + errors (stats mid') = length (results_st pre')"
    by simp
  from run_events_st_bounded [OF r] n
  show "completed (stats mid') + errors (stats mid') \<le> requestCount" by simp
qed

text \<open>
  The witness: the sample stage and the sample run of 3 requests on 2 workers, at their
  end and after two outcomes.
\<close>

theorem stage_outcomes_counted_witness:
  "\<exists>st st' mid mid'.
     run_pool 2 3 sample_completions = Some st \<and>
     completed (stats st) + errors (stats st) = 3 \<and>
     mset (records (trace st)) = mset [0..<3] \<and>
     run_pool_st 2 3 sample_events_st = Some st' \<and>
     completed (stats st') + errors (stats st') = 3 \<and>
     mset (records (trace st')) = mset [0..<3] \<and>
     run_events 3 (spawn_workers 3 (nat 2) init_stage) sample_prefix = Some mid \<and>
     completed (stats mid) + errors (stats mid) = 2 \<and>
     run_events_st 3 (spawn_workers 3 (nat 2) init_run) sample_prefix_st = Some mid' \<and>
     completed (stats mid') + errors (stats mid') = 2"
proof -
  obtain st where st: "run_pool 2 3 sample_completions = Some st"
    using sample_run_pool by blast
  obtain st' where st': "run_pool_st 2 3 sample_events_st = Some st'"
    using sample_run_pool_st by blast
  obtain mid where mid: "run_events 3 (spawn_workers 3 (nat 2) init_stage) sample_prefix = Some mid"
    using sample_prefix_run by simp
  obtain mid' where mid': "run_events_st 3 (spawn_workers 3 (nat 2) init_run) sample_prefix_st = Some mid'"
    using sample_prefix_st_run by simp
  have two: "length sample_prefix = 2" "length (results_st sample_prefix_st) = 2"
    by (simp_all add: sample_prefix_def sample_prefix_st_def results_st_def)
  have "(1::int) \<le> 2" by simp
  from stage_outcomes_counted [OF this, of 3 sample_completions st sample_events_st st'
      sample_prefix mid sample_prefix_st mid'] st st' mid mid' two
  show ?thesis by auto
qed

subsection \<open>Percentiles\<close>

lemma sort_fixture: "sort_latencies fixture = fixture"
  unfolding sort_latencies_def fixture_def
  by (rule sorted_sort_id) (simp add: sorted_map strict_mono_on_def sorted_wrt_upt flip: strict_sorted_iff)

lemma nth_fixture: "k < 100 \<Longrightarrow> fixture ! k = 10 * (int k + 1)"
  by (simp add: fixture_def nth_upt add.commute)

lemma length_fixture: "length fixture = 100"
  by (simp add: fixture_def)

lemma p50_fixture: "getPercentile (sort_latencies fixture) 50 = Some 510"
  by (simp add: sort_fixture getPercentile_def length_fixture nth_fixture)

lemma p99_fixture: "getPercentile (sort_latencies fixture) 99 = Some 1000"
  by (simp add: sort_fixture getPercentile_def length_fixture nth_fixture)

text \<open>
  C3, as stated, fails: on the samples 10, 20, ..., 1000 the percentile function does not
  return 500 for p50 and 990 for p99.
\<close>

theorem percentile_fixture_counterexample:
  "\<not> (getPercentile (sort_latencies fixture) 50 = Some 500 \<and>
      getPercentile (sort_latencies fixture) 99 = Some 990)"
  by (simp add: p50_fixture)

text \<open>
  C3, amended. On the samples 10, 20, ..., 1000 the percentile function selects the sorted
  sample at the zero-based index \<open>floor (p / 100 * 100)\<close>: p50 is the sample at index 50,
  which is 510, the 51st smallest, and p99 is the sample at index 99, which is 1000, the
  100th smallest. The 50th and the 99th smallest samples are 500 and 990.
\<close>

theorem percentile_fixture:
  "getPercentile (sort_latencies fixture) 50 = Some 510 \<and>
   getPercentile (sort_latencies fixture) 50 = Some (sort_latencies fixture ! 50) \<and>
   getPercentile (sort_latencies fixture) 99 = Some 1000 \<and>
   getPercentile (sort_latencies fixture) 99 = Some (sort_latencies fixture ! 99) \<and>
   sort_latencies fixture ! 49 = 500 \<and> sort_latencies fixture ! 98 = 990"
  by (simp add: p50_fixture p99_fixture) (simp add: sort_fixture nth_fixture)

subsection \<open>The resource handle\<close>

lemma try_block_cases:
  obtains (no_handle) err where "connect_err env = Some err"
      "try_block env = (False, [Connect], Inl err)"
  | (insert_failed) err where "connect_err env = None"
      "try_block env = (True, [Connect, Insert], Inl err)"
  | (select_failed) err where "connect_err env = None"
      "try_block env = (True, [Connect, Insert, Select], Inl err)"
  | (succeeded) "connect_err env = None"
      "try_block env = (True, [Connect, Insert, Select], Inr (now_end env - now_start env))"
  by (cases "connect_err env"; cases "insert_err env"; cases "select_err env")
    (simp_all add: try_block_def)

text \<open>
  C8. Whatever the collaborator answers (success, a failed INSERT, a failed SELECT, a
  failed connection), the calls of one unit of work are \<open>Connect\<close>, then queries, then
  \<open>Release\<close> if and only if the connection was obtained: an acquired handle is released
  exactly once, after the last query, and nothing is released when the acquisition
  failed. This holds for \<open>performUserAction\<close> of both files.
\<close>

theorem handle_released_once:
  "\<exists>queries. set queries \<subseteq> {Insert, Select} \<and>
     snd (performUserAction env) =
       Connect # queries @ (if connect_err env = None then [Release] else []) \<and>
     snd (performUserAction_st s env) =
       Connect # queries @ (if connect_err env = None then [Release] else []) \<and>
     count_list (snd (performUserAction env)) Release = (if connect_err env = None then 1 else 0) \<and>
     count_list (snd (performUserAction_st s env)) Release = (if connect_err env = None then 1 else 0)"
proof (cases rule: try_block_cases [of env])
  case (no_handle err)
  then show ?thesis
    by (intro exI [of _ "[]"])
      (simp add: performUserAction_def performUserAction_st_def finally_block_def)
next
  case (insert_failed err)
  then show ?thesis
    by (intro exI [of _ "[Insert]"])
      (simp add: performUserAction_def performUserAction_st_def finally_block_def)
next
  case (select_failed err)
  then show ?thesis
    by (intro exI [of _ "[Insert, Select]"])
      (simp add: performUserAction_def performUserAction_st_def finally_block_def)
next
  case succeeded
  then show ?thesis
    by (intro exI [of _ "[Insert, Select]"])
      (simp add: performUserAction_def performUserAction_st_def finally_block_def)
qed

subsection \<open>The figures of a stage\<close>

lemma runStage_SomeE:
  assumes "runStage c rc env = Some r"
  obtains st where "run_pool c rc (completions env) = Some st"
    "r = stage_result c rc (stats st) (startTime env) (endTime env)"
  using assms by (auto simp: runStage_def split: option.splits)

lemma runStressTest_SomeE:
  assumes "runStressTest c n env = Some r"
  obtains st where "run_pool_st c n (completions env) = Some st"
    "r = run_summary (stats st) (startTime env) (endTime env)"
  using assms by (auto simp: runStressTest_def split: option.splits)

lemma stage_result_fields:
  "concurrency (stage_result c rc s t0 t1) = c"
  "throughput (stage_result c rc s t0 t1) = js_div (of_nat (completed s)) (of_int (t1 - t0) / 1000)"
  "avgLatency (stage_result c rc s t0 t1) =
     (if 0 < completed s then js_div (of_int (totalDuration s)) (of_nat (completed s)) else Num 0)"
  "errorRate (stage_result c rc s t0 t1) = js_div (of_nat (errors s)) (of_nat rc)"
  "hasCriticalFailure (stage_result c rc s t0 t1) =
     (0 < connErrors s \<or> js_gt (js_div (of_nat (errors s)) (of_nat rc)) MAX_ERROR_RATE)"
  by (simp_all add: stage_result_def Let_def)

lemma throughput_st_run_summary:
  "throughput_st (run_summary s t0 t1) = js_div (of_nat (completed s)) (of_int (t1 - t0) / 1000)"
  by (simp add: run_summary_def Let_def)

lemma js_div_seconds:
  "js_div (of_nat n) (of_int (t1 - t0) / 1000) =
     (if t1 \<noteq> t0 then Num (of_nat n / (of_int (t1 - t0) / 1000))
      else if 0 < n then PosInfinity else NaN)"
  by (simp add: js_div_def)

lemma js_gt_irrefl: "\<not> js_gt x x"
  by (cases x) simp_all

lemma run_pool_errors_bound:
  assumes "run_pool c rc evs = Some st"
  shows "errors (stats st) \<le> rc"
proof -
  from assms have r: "run_events rc (spawn_workers rc (nat c) init_stage) evs = Some st"
    by (rule run_pool_SomeE)
  have "errors (stats st) \<le> length evs"
    using run_pool_stats(2) [OF assms] length_durations_failures [of "results evs"]
    by (simp add: results_def)
  with run_events_bounded [OF r] show ?thesis by simp
qed

lemma js_gt_rate:
  assumes "e \<le> rc"
  shows "js_gt (js_div (of_nat e) (of_nat rc)) MAX_ERROR_RATE \<longleftrightarrow>
         0 < rc \<and> (5 / 100 :: rat) < of_nat e / of_nat rc"
  using assms by (cases "rc = 0") (simp_all add: js_div_def MAX_ERROR_RATE_def)

lemma sample_failures:
  "failures (results (completions stage_env_one_timeout)) =
     [\<lparr>code = None, message = ''timeout exceeded when trying to connect''\<rparr>]"
  "failures (results (completions stage_env_threshold)) =
     [\<lparr>code = Some ''22001'', message = ''value too long for type character varying(50)''\<rparr>]"
  "failures (results (completions stage_env_above)) =
     [\<lparr>code = Some ''22001'', message = ''value too long for type character varying(50)''\<rparr>]"
  by code_simp+

lemma sample_conn_errors:
  "is_conn_error \<lparr>code = None, message = ''timeout exceeded when trying to connect''\<rparr>"
  "\<not> is_conn_error \<lparr>code = Some ''22001'', message = ''value too long for type character varying(50)''\<rparr>"
  by code_simp+

text \<open>
  C2. For every completed stage, \<open>hasCriticalFailure\<close> is true if and only if
  \<open>connErrors > 0\<close> or \<open>errorRate > MAX_ERROR_RATE\<close>, that is, in numbers, if and only
  if at least one recorded failure is a connection error (its error has code 53300 or a
  message that includes "timeout") or \<open>errors / requestCount\<close> is above 5/100. The
  comparison is strict: one connection error makes the stage critical whatever the error
  rate, a rate above 5/100 makes it critical without any connection error, and a rate
  equal to 5/100 with no connection error does not.
\<close>

theorem critical_failure_iff:
  assumes "runStage c rc env = Some r"
  shows "\<exists>st. run_pool c rc (completions env) = Some st \<and>
     errorRate r = js_div (of_nat (errors (stats st))) (of_nat rc) \<and>
     connErrors (stats st) = length (filter is_conn_error (failures (results (completions env)))) \<and>
     errors (stats st) = length (failures (results (completions env))) \<and>
     (hasCriticalFailure r \<longleftrightarrow>
        0 < connErrors (stats st) \<or>
        0 < rc \<and> (5 / 100 :: rat) < of_nat (errors (stats st)) / of_nat rc) \<and>
     (hasCriticalFailure r \<longleftrightarrow> 0 < connErrors (stats st) \<or> js_gt (errorRate r) MAX_ERROR_RATE) \<and>
     (0 < connErrors (stats st) \<longrightarrow> hasCriticalFailure r) \<and>
     (connErrors (stats st) = 0 \<and> 0 < rc \<and>
        (5 / 100 :: rat) < of_nat (errors (stats st)) / of_nat rc \<longrightarrow> hasCriticalFailure r) \<and>
     (connErrors (stats st) = 0 \<and>
        of_nat (errors (stats st)) / of_nat rc = (5 / 100 :: rat) \<longrightarrow> \<not> hasCriticalFailure r) \<and>
     (connErrors (stats st) = 0 \<and> errorRate r = MAX_ERROR_RATE \<longrightarrow> \<not> hasCriticalFailure r)"
proof -
  from assms obtain st where st: "run_pool c rc (completions env) = Some st"
    and r: "r = stage_result c rc (stats st) (startTime env) (endTime env)"
    by (rule runStage_SomeE)
  have irr: "\<not> js_gt MAX_ERROR_RATE MAX_ERROR_RATE" by (rule js_gt_irrefl)
  note rate = js_gt_rate [OF run_pool_errors_bound [OF st]]
  have crit: "hasCriticalFailure r \<longleftrightarrow>
        0 < connErrors (stats st) \<or>
        0 < rc \<and> (5 / 100 :: rat) < of_nat (errors (stats st)) / of_nat rc"
    by (simp add: r stage_result_fields rate)
  have crit': "hasCriticalFailure r \<longleftrightarrow> 0 < connErrors (stats st) \<or> js_gt (errorRate r) MAX_ERROR_RATE"
    by (simp add: r stage_result_fields)
  have eq: "errorRate r = js_div (of_nat (errors (stats st))) (of_nat rc)"
    by (simp add: r stage_result_fields)
  have a: "0 < connErrors (stats st) \<longrightarrow> hasCriticalFailure r"
    and b: "connErrors (stats st) = 0 \<and> 0 < rc \<and>
        (5 / 100 :: rat) < of_nat (errors (stats st)) / of_nat rc \<longrightarrow> hasCriticalFailure r"
    and d: "connErrors (stats st) = 0 \<and>
        of_nat (errors (stats st)) / of_nat rc = (5 / 100 :: rat) \<longrightarrow> \<not> hasCriticalFailure r"
    using crit by auto
  have e: "connErrors (stats st) = 0 \<and> errorRate r = MAX_ERROR_RATE \<longrightarrow> \<not> hasCriticalFailure r"
    using crit' irr by auto
  show ?thesis
    using st eq run_pool_stats(5) [OF st] run_pool_stats(2) [OF st] crit crit' a b d e
    by blast
qed

text \<open>
  The witness: one timeout among 40 requests (an error rate of 2.5 percent) is critical;
  one refused INSERT among 20 requests (exactly 5 percent) is not; one refused INSERT
  among 10 requests (10 percent) is critical with no connection error.
\<close>

theorem critical_failure_iff_witness:
  "\<exists>r st r' st' r'' st''.
     runStage 1 40 stage_env_one_timeout = Some r \<and>
     run_pool 1 40 (completions stage_env_one_timeout) = Some st \<and>
     connErrors (stats st) = 1 \<and> errors (stats st) = 1 \<and>
     \<not> (5 / 100 :: rat) < of_nat (errors (stats st)) / of_nat 40 \<and> hasCriticalFailure r \<and>
     runStage 1 20 stage_env_threshold = Some r' \<and>
     run_pool 1 20 (completions stage_env_threshold) = Some st' \<and>
     connErrors (stats st') = 0 \<and> errors (stats st') = 1 \<and>
     of_nat (errors (stats st')) / of_nat 20 = (5 / 100 :: rat) \<and>
     errorRate r' = MAX_ERROR_RATE \<and> \<not> hasCriticalFailure r' \<and>
     runStage 1 10 stage_env_above = Some r'' \<and>
     run_pool 1 10 (completions stage_env_above) = Some st'' \<and>
     connErrors (stats st'') = 0 \<and> errors (stats st'') = 1 \<and>
     (5 / 100 :: rat) < of_nat (errors (stats st'')) / of_nat 10 \<and> hasCriticalFailure r''"
proof -
  from critical_failure_iff [OF sample_one_timeout] obtain st
    where st: "run_pool 1 40 (completions stage_env_one_timeout) = Some st"
      and n: "connErrors (stats st) = 1" "errors (stats st) = 1"
      and c: "0 < connErrors (stats st) \<longrightarrow>
        hasCriticalFailure \<lparr>concurrency = 1, throughput = Num (39 / 8), avgLatency = Num 7,
             errorRate = Num (1 / 40), hasCriticalFailure = True\<rparr>"
    by (auto simp: sample_failures sample_conn_errors)
  from critical_failure_iff [OF sample_threshold] obtain st'
    where st': "run_pool 1 20 (completions stage_env_threshold) = Some st'"
      and n': "connErrors (stats st') = 0" "errors (stats st') = 1"
      and c': "connErrors (stats st') = 0 \<and>
        of_nat (errors (stats st')) / of_nat 20 = (5 / 100 :: rat) \<longrightarrow>
        \<not> hasCriticalFailure \<lparr>concurrency = 1, throughput = Num (19 / 8), avgLatency = Num 7,
           errorRate = Num (1 / 20), hasCriticalFailure = False\<rparr>"
    by (auto simp: sample_failures sample_conn_errors)
  from critical_failure_iff [OF sample_above] obtain st''
    where st'': "run_pool 1 10 (completions stage_env_above) = Some st''"
      and n'': "connErrors (stats st'') = 0" "errors (stats st'') = 1"
      and c'': "connErrors (stats st'') = 0 \<and> (0::nat) < 10 \<and>
        (5 / 100 :: rat) < of_nat (errors (stats st'')) / of_nat 10 \<longrightarrow>
        hasCriticalFailure \<lparr>concurrency = 1, throughput = Num (9 / 8), avgLatency = Num 7,
           errorRate = Num (1 / 10), hasCriticalFailure = True\<rparr>"
    by (auto simp: sample_failures sample_conn_errors)
  show ?thesis
    using sample_one_timeout sample_threshold sample_above st st' st'' n n' n''
    by (simp add: MAX_ERROR_RATE_def)
qed

text \<open>
  C4, as stated, fails: the division is not guarded. A stage or a run that ends within the
  millisecond in which it started has an elapsed time of 0; its throughput is \<open>Infinity\<close>
  when something was completed and \<open>NaN\<close> when nothing was, never 0.
\<close>

theorem throughput_unguarded_counterexample:
  "endTime stage_env_instant - startTime stage_env_instant \<le> 0 \<and>
   map_option throughput (runStage 1 1 stage_env_instant) = Some PosInfinity \<and>
   endTime stage_env_empty - startTime stage_env_empty \<le> 0 \<and>
   map_option throughput (runStage 1 0 stage_env_empty) = Some NaN \<and>
   endTime run_env_instant - startTime run_env_instant \<le> 0 \<and>
   map_option throughput_st (runStressTest 1 1 run_env_instant) = Some PosInfinity \<and>
   PosInfinity \<noteq> Num 0 \<and> NaN \<noteq> Num 0"
  by code_simp

text \<open>
  C4, amended. For every completed stage (and for the single run of \<open>stress_test.js\<close>),
  the reported throughput is \<open>completed\<close> divided by the elapsed seconds whenever the
  elapsed time is not 0; the division has no guard, so with an elapsed time of 0 it is
  \<open>Infinity\<close> when \<open>completed > 0\<close> and \<open>NaN\<close> when \<open>completed = 0\<close>.
\<close>

theorem throughput_quotient:
  "(runStage c rc env = Some r \<longrightarrow>
      (\<exists>st. run_pool c rc (completions env) = Some st \<and>
         throughput r =
           (if endTime env \<noteq> startTime env
            then Num (of_nat (completed (stats st)) / (of_int (endTime env - startTime env) / 1000))
            else if 0 < completed (stats st) then PosInfinity else NaN)))
 \<and> (runStressTest c' n env' = Some r' \<longrightarrow>
      (\<exists>st. run_pool_st c' n (completions env') = Some st \<and>
         throughput_st r' =
           (if endTime env' \<noteq> startTime env'
            then Num (of_nat (completed (stats st)) / (of_int (endTime env' - startTime env') / 1000))
            else if 0 < completed (stats st) then PosInfinity else NaN)))"
proof (intro conjI impI)
  assume "runStage c rc env = Some r"
  then obtain st where "run_pool c rc (completions env) = Some st"
    and "r = stage_result c rc (stats st) (startTime env) (endTime env)"
    by (rule runStage_SomeE)
  then show "\<exists>st. run_pool c rc (completions env) = Some st \<and>
         throughput r =
           (if endTime env \<noteq> startTime env
            then Num (of_nat (completed (stats st)) / (of_int (endTime env - startTime env) / 1000))
            else if 0 < completed (stats st) then PosInfinity else NaN)"
    by (simp only: stage_result_fields js_div_seconds) simp
next
  assume "runStressTest c' n env' = Some r'"
  then obtain st where "run_pool_st c' n (completions env') = Some st"
    and "r' = run_summary (stats st) (startTime env') (endTime env')"
    by (rule runStressTest_SomeE)
  then show "\<exists>st. run_pool_st c' n (completions env') = Some st \<and>
         throughput_st r' =
           (if endTime env' \<noteq> startTime env'
            then Num (of_nat (completed (stats st)) / (of_int (endTime env' - startTime env') / 1000))
            else if 0 < completed (stats st) then PosInfinity else NaN)"
    by (simp only: throughput_st_run_summary js_div_seconds) simp
qed

text \<open>
  The witness: the sample stage and the sample run, which take 5.5 seconds and complete 2
  units of work.
\<close>

theorem throughput_quotient_witness:
  "\<exists>r st r' st'.
     runStage 2 3 sample_stage_env = Some r \<and>
     run_pool 2 3 (completions sample_stage_env) = Some st \<and>
     throughput r = Num (of_nat (completed (stats st)) / (5500 / 1000)) \<and>
     runStressTest 2 3 sample_run_env = Some r' \<and>
     run_pool_st 2 3 (completions sample_run_env) = Some st' \<and>
     throughput_st r' = Num (of_nat (completed (stats st')) / (5500 / 1000))"
proof -
  obtain r where r: "runStage 2 3 sample_stage_env = Some r"
    using sample_runStage by blast
  obtain r' where r': "runStressTest 2 3 sample_run_env = Some r'"
    using sample_runStressTest by blast
  from throughput_quotient [of 2 3 sample_stage_env r 2 3 sample_run_env r'] r r'
  show ?thesis
    by (simp add: sample_stage_env_def sample_run_env_def)
qed

text \<open>
  C9. For every completed stage, the reported average latency is the sum of the recorded
  latencies divided by \<open>completed\<close> when \<open>completed > 0\<close>, and 0 when \<open>completed = 0\<close>.
\<close>

theorem average_latency:
  assumes "runStage c rc env = Some r"
  shows "\<exists>st. run_pool c rc (completions env) = Some st \<and>
     avgLatency r =
       (if 0 < completed (stats st)
        then Num (of_int (sum_list (latencies (stats st))) / of_nat (completed (stats st)))
        else Num 0)"
proof -
  from assms obtain st where st: "run_pool c rc (completions env) = Some st"
    and r: "r = stage_result c rc (stats st) (startTime env) (endTime env)"
    by (rule runStage_SomeE)
  have "totalDuration (stats st) = sum_list (latencies (stats st))"
    using run_pool_stats(3,4) [OF st] by simp
  then show ?thesis
    using st by (auto simp: r stage_result_fields js_div_def)
qed

text \<open>
  The witness: the sample stage, with the latencies 7 and 7, and a stage of no request.
\<close>

theorem average_latency_witness:
  "\<exists>r st r'.
     runStage 2 3 sample_stage_env = Some r \<and>
     run_pool 2 3 (completions sample_stage_env) = Some st \<and>
     latencies (stats st) = [7, 7] \<and> completed (stats st) = 2 \<and> avgLatency r = Num 7 \<and>
     runStage 1 0 stage_env_empty = Some r' \<and> avgLatency r' = Num 0"
proof -
  let ?r = "\<lparr>concurrency = 2, throughput = Num (4 / 11), avgLatency = Num 7,
             errorRate = Num (1 / 3), hasCriticalFailure = True\<rparr>"
  from average_latency [OF sample_runStage]
  obtain st where st: "run_pool 2 3 (completions sample_stage_env) = Some st"
    by blast
  from st sample_run_pool have "latencies (stats st) = [7, 7]" "completed (stats st) = 2"
    by (auto simp: sample_stage_env_def)
  moreover have "map_option avgLatency (runStage 1 0 stage_env_empty) = Some (Num 0)"
    by code_simp
  ultimately show ?thesis
    using sample_runStage st by auto
qed

subsection \<open>The latency samples\<close>

lemma step_st_Resume_stats:
  "step_st n st (Resume w) = Some st' \<Longrightarrow> stats st' = stats st"
  by (auto simp: step_st_def split: if_splits worker.splits)

lemma step_st_Finish_stats:
  "step_st n st (Finish w env) = Some st' \<Longrightarrow> stats st' = fst (performUserAction_st (stats st) env)"
  by (auto simp: step_st_def split: if_splits worker.splits)

text \<open>
  C10. In every state a stage (\<open>index.js\<close>) or the run (\<open>stress_test.js\<close>) reaches, not
  only the last, the latency samples are the durations of the successful units of work so
  far, one sample each and in the order of their completion; so their number is
  \<open>completed\<close>, and \<open>totalDuration\<close> is their sum. A unit of work that fails adds no
  sample and leaves \<open>totalDuration\<close> and \<open>completed\<close> as they were; one that succeeds
  after \<open>d\<close> milliseconds appends the sample \<open>d\<close>, adds \<open>d\<close> to \<open>totalDuration\<close>
  and 1 to \<open>completed\<close>.
\<close>

theorem latency_samples:
  "(run_events rc (spawn_workers rc k init_stage) evs = Some st \<longrightarrow>
      latencies (stats st) = durations (results evs) \<and>
      length (latencies (stats st)) = completed (stats st) \<and>
      totalDuration (stats st) = sum_list (latencies (stats st)))
 \<and> (run_events_st n (spawn_workers n k' init_run) evs' = Some st' \<longrightarrow>
      latencies (stats st') = durations (results_st evs') \<and>
      length (latencies (stats st')) = completed (stats st') \<and>
      totalDuration (stats st') = sum_list (latencies (stats st')))
 \<and> (resume rc sa (w, env) = Some sb \<and> action_outcome env = Failure err \<longrightarrow>
      latencies (stats sb) = latencies (stats sa) \<and>
      totalDuration (stats sb) = totalDuration (stats sa) \<and>
      completed (stats sb) = completed (stats sa))
 \<and> (resume rc sa (w, env) = Some sb \<and> action_outcome env = Success d \<longrightarrow>
      latencies (stats sb) = latencies (stats sa) @ [d] \<and>
      totalDuration (stats sb) = totalDuration (stats sa) + d \<and>
      completed (stats sb) = completed (stats sa) + 1)
 \<and> (step_st n ta (Finish w env) = Some tb \<and> action_outcome env = Failure err \<longrightarrow>
      latencies (stats tb) = latencies (stats ta) \<and>
      totalDuration (stats tb) = totalDuration (stats ta) \<and>
      completed (stats tb) = completed (stats ta))
 \<and> (step_st n ta (Finish w env) = Some tb \<and> action_outcome env = Success d \<longrightarrow>
      latencies (stats tb) = latencies (stats ta) @ [d] \<and>
      totalDuration (stats tb) = totalDuration (stats ta) + d \<and>
      completed (stats tb) = completed (stats ta) + 1)
 \<and> (step_st n ta (Resume w) = Some tc \<longrightarrow> stats tc = stats ta)"
proof (intro conjI impI; (elim conjE)?)
  assume "run_events rc (spawn_workers rc k init_stage) evs = Some st"
  from run_events_stats [OF this]
  show "latencies (stats st) = durations (results evs)"
    and "length (latencies (stats st)) = completed (stats st)"
    and "totalDuration (stats st) = sum_list (latencies (stats st))"
    by simp_all
next
  assume "run_events_st n (spawn_workers n k' init_run) evs' = Some st'"
  from run_events_st_stats [OF this]
  show "latencies (stats st') = durations (results_st evs')"
    and "length (latencies (stats st')) = completed (stats st')"
    and "totalDuration (stats st') = sum_list (latencies (stats st'))"
    by simp_all
next
  assume "resume rc sa (w, env) = Some sb" "action_outcome env = Failure err"
  then show "latencies (stats sb) = latencies (stats sa)"
    and "totalDuration (stats sb) = totalDuration (stats sa)"
    and "completed (stats sb) = completed (stats sa)"
    by (simp_all add: resume_stats(1) record_result_fields)
next
  assume "resume rc sa (w, env) = Some sb" "action_outcome env = Success d"
  then show "latencies (stats sb) = latencies (stats sa) @ [d]"
    and "totalDuration (stats sb) = totalDuration (stats sa) + d"
    and "completed (stats sb) = completed (stats sa) + 1"
    by (simp_all add: resume_stats(1) record_result_fields)
next
  assume "step_st n ta (Finish w env) = Some tb" "action_outcome env = Failure err"
  then show "latencies (stats tb) = latencies (stats ta)"
    and "totalDuration (stats tb) = totalDuration (stats ta)"
    and "completed (stats tb) = completed (stats ta)"
    by (simp_all add: step_st_Finish_stats performUserAction_st_fields)
next
  assume "step_st n ta (Finish w env) = Some tb" "action_outcome env = Success d"
  then show "latencies (stats tb) = latencies (stats ta) @ [d]"
    and "totalDuration (stats tb) = totalDuration (stats ta) + d"
    and "completed (stats tb) = completed (stats ta) + 1"
    by (simp_all add: step_st_Finish_stats performUserAction_st_fields)
next
  assume "step_st n ta (Resume w) = Some tc"
  then show "stats tc = stats ta" by (rule step_st_Resume_stats)
qed


text \<open>
  The witness: the stage and the run of 3 requests on 2 workers, after two units of work
  (one success of 7 ms, one timeout) and before the third; a timeout and a success as the
  first completion.
\<close>

theorem latency_samples_witness:
  "\<exists>st st' sb tb.
     run_events 3 (spawn_workers 3 2 init_stage) sample_prefix = Some st \<and>
     \<not> all_exited st \<and>
     latencies (stats st) = durations (results sample_prefix) \<and>
     durations (results sample_prefix) = [7] \<and>
     length (latencies (stats st)) = completed (stats st) \<and>
     totalDuration (stats st) = sum_list (latencies (stats st)) \<and>
     run_events_st 3 (spawn_workers 3 2 init_run) sample_prefix_st = Some st' \<and>
     \<not> all_exited st' \<and>
     latencies (stats st') = durations (results_st sample_prefix_st) \<and>
     length (latencies (stats st')) = completed (stats st') \<and>
     totalDuration (stats st') = sum_list (latencies (stats st')) \<and>
     resume 3 (spawn_workers 3 2 init_stage) (0, env_timeout) = Some sb \<and>
     latencies (stats sb) = latencies (stats (spawn_workers 3 2 init_stage)) \<and>
     completed (stats sb) = completed (stats (spawn_workers 3 2 init_stage)) \<and>
     step_st 3 (spawn_workers 3 2 init_run) (Finish 0 env_ok) = Some tb \<and>
     latencies (stats tb) = latencies (stats (spawn_workers 3 2 init_run)) @ [7] \<and>
     completed (stats tb) = completed (stats (spawn_workers 3 2 init_run)) + 1"
proof -
  obtain st where st: "run_events 3 (spawn_workers 3 2 init_stage) sample_prefix = Some st"
    and nst: "\<not> all_exited st"
    using sample_prefix_run by (simp add: all_exited_def)
  obtain st' where st': "run_events_st 3 (spawn_workers 3 2 init_run) sample_prefix_st = Some st'"
    and nst': "\<not> all_exited st'"
    using sample_prefix_st_run by (simp add: all_exited_def)
  obtain sb where sb: "resume 3 (spawn_workers 3 2 init_stage) (0, env_timeout) = Some sb"
    using sample_resume_timeout by blast
  obtain tb where tb: "step_st 3 (spawn_workers 3 2 init_run) (Finish 0 env_ok) = Some tb"
    using sample_finish_ok by blast
  have d: "durations (results sample_prefix) = [7]" by code_simp
  note a = latency_samples [where rc = 3 and k = 2 and evs = sample_prefix and st = st
      and n = 3 and k' = 2 and evs' = sample_prefix_st and st' = st'
      and sa = "spawn_workers 3 2 init_stage" and w = 0 and env = env_timeout and sb = sb
      and err = "\<lparr>code = None, message = ''timeout exceeded when trying to connect''\<rparr>"]
  note b = latency_samples [where n = 3 and ta = "spawn_workers 3 2 init_run" and w = 0
      and env = env_ok and tb = tb and d = 7]
  from a st st' sb sample_outcomes(1)
  have "latencies (stats st) = durations (results sample_prefix)"
    "length (latencies (stats st)) = completed (stats st)"
    "totalDuration (stats st) = sum_list (latencies (stats st))"
    "latencies (stats st') = durations (results_st sample_prefix_st)"
    "length (latencies (stats st')) = completed (stats st')"
    "totalDuration (stats st') = sum_list (latencies (stats st'))"
    "latencies (stats sb) = latencies (stats (spawn_workers 3 2 init_stage))"
    "completed (stats sb) = completed (stats (spawn_workers 3 2 init_stage))"
    by blast+
  moreover from b tb sample_outcomes(2)
  have "latencies (stats tb) = latencies (stats (spawn_workers 3 2 init_run)) @ [7]"
    "completed (stats tb) = completed (stats (spawn_workers 3 2 init_run)) + 1"
    by blast+
  ultimately show ?thesis
    using st st' sb tb nst nst' d by blast
qed

subsection \<open>The task source\<close>

lemma issue_upt: "issue k n = [n..<n + k]"
  by (induction k arbitrary: n) (simp_all add: nextIndex_def upt_rec)

lemma polls_of_simps [simp]:
  "polls_of w [] = []" "polls_of w (tr @ tr') = polls_of w tr @ polls_of w tr'"
  "polls_of w (l # tr) = polled_by w l @ polls_of w tr"
  by (simp_all add: polls_of_def)

lemma polling_start_worker:
  assumes "polling rc st"
  shows "polling rc (start_worker rc st)"
  unfolding polling_def
proof (intro allI)
  fix w
  let ?n = "length (workers st)"
  from assms
  have a: "w < ?n \<and> workers st ! w \<noteq> Exited \<longrightarrow> list_all (\<lambda>i. i < rc) (polls_of w (trace st))"
    and b: "w < ?n \<and> workers st ! w = Exited \<longrightarrow>
             (\<exists>js j. polls_of w (trace st) = js @ [j] \<and> list_all (\<lambda>i. i < rc) js \<and> rc \<le> j)"
    and c: "?n \<le> w \<longrightarrow> polls_of w (trace st) = []"
    by (simp_all add: polling_def)
  consider "w < ?n" | "w = ?n" | "?n < w" by linarith
  then show "(w < length (workers (start_worker rc st)) \<and> workers (start_worker rc st) ! w \<noteq> Exited \<longrightarrow>
             list_all (\<lambda>i. i < rc) (polls_of w (trace (start_worker rc st)))) \<and>
          (w < length (workers (start_worker rc st)) \<and> workers (start_worker rc st) ! w = Exited \<longrightarrow>
             (\<exists>js j. polls_of w (trace (start_worker rc st)) = js @ [j] \<and> list_all (\<lambda>i. i < rc) js \<and> rc \<le> j)) \<and>
          (length (workers (start_worker rc st)) \<le> w \<longrightarrow> polls_of w (trace (start_worker rc st)) = [])"
  proof cases
    case 1
    with a b show ?thesis by (simp add: start_worker_eq nth_append)
  next
    case 2
    with c show ?thesis by (simp add: start_worker_eq nth_append)
  next
    case 3
    with c show ?thesis by (simp add: start_worker_eq)
  qed
qed

lemma polling_spawn: "polling rc st \<Longrightarrow> polling rc (spawn_workers rc k st)"
  by (induction k arbitrary: st) (simp_all add: polling_start_worker)

lemma polling_continue:
  assumes "polling rc st" and v: "v < length (workers st)" and nv: "workers st ! v \<noteq> Exited"
  shows "polling rc (continue_worker rc v st)"
  unfolding polling_def
proof (intro allI)
  fix w
  let ?n = "length (workers st)"
  let ?st = "continue_worker rc v st"
  from assms(1)
  have a: "w < ?n \<and> workers st ! w \<noteq> Exited \<longrightarrow> list_all (\<lambda>i. i < rc) (polls_of w (trace st))"
    and b: "w < ?n \<and> workers st ! w = Exited \<longrightarrow>
             (\<exists>js j. polls_of w (trace st) = js @ [j] \<and> list_all (\<lambda>i. i < rc) js \<and> rc \<le> j)"
    and c: "?n \<le> w \<longrightarrow> polls_of w (trace st) = []"
    by (simp_all add: polling_def)
  show "(w < length (workers ?st) \<and> workers ?st ! w \<noteq> Exited \<longrightarrow>
             list_all (\<lambda>i. i < rc) (polls_of w (trace ?st))) \<and>
          (w < length (workers ?st) \<and> workers ?st ! w = Exited \<longrightarrow>
             (\<exists>js j. polls_of w (trace ?st) = js @ [j] \<and> list_all (\<lambda>i. i < rc) js \<and> rc \<le> j)) \<and>
          (length (workers ?st) \<le> w \<longrightarrow> polls_of w (trace ?st) = [])"
  proof (cases "w = v")
    case True
    with a v nv show ?thesis by (simp add: continue_worker_eq)
  next
    case False
    with a b c v show ?thesis by (simp add: continue_worker_eq)
  qed
qed

lemma polling_recorded:
  assumes "polling rc st" and v: "v < length (workers st)" and nv: "workers st ! v \<noteq> Exited"
    and x: "x \<noteq> Exited"
  shows "polling rc (st\<lparr>stats := s', workers := (workers st)[v := x], trace := trace st @ [Recorded v i]\<rparr>)"
  unfolding polling_def
proof (intro allI)
  fix w
  let ?n = "length (workers st)"
  let ?st = "st\<lparr>stats := s', workers := (workers st)[v := x], trace := trace st @ [Recorded v i]\<rparr>"
  from assms(1)
  have a: "w < ?n \<and> workers st ! w \<noteq> Exited \<longrightarrow> list_all (\<lambda>i. i < rc) (polls_of w (trace st))"
    and b: "w < ?n \<and> workers st ! w = Exited \<longrightarrow>
             (\<exists>js j. polls_of w (trace st) = js @ [j] \<and> list_all (\<lambda>i. i < rc) js \<and> rc \<le> j)"
    and c: "?n \<le> w \<longrightarrow> polls_of w (trace st) = []"
    by (simp_all add: polling_def)
  show "(w < length (workers ?st) \<and> workers ?st ! w \<noteq> Exited \<longrightarrow>
             list_all (\<lambda>i. i < rc) (polls_of w (trace ?st))) \<and>
          (w < length (workers ?st) \<and> workers ?st ! w = Exited \<longrightarrow>
             (\<exists>js j. polls_of w (trace ?st) = js @ [j] \<and> list_all (\<lambda>i. i < rc) js \<and> rc \<le> j)) \<and>
          (length (workers ?st) \<le> w \<longrightarrow> polls_of w (trace ?st) = [])"
  proof (cases "w = v")
    case True
    with a v nv x show ?thesis by simp
  next
    case False
    with a b c v show ?thesis by simp
  qed
qed


lemma polling_stats_recorded:
  assumes "polling rc st"
  shows "polling rc (st\<lparr>stats := s', trace := trace st @ [Recorded v i]\<rparr>)"
  using assms by (simp add: polling_def)

lemma polling_resume:
  assumes "polling rc st" "resume rc st ev = Some st'"
  shows "polling rc st'"
  using assms(2)
proof (rule resume_SomeE)
  fix w env i
  assume w: "w < length (workers st)" and aw: "workers st ! w = Awaiting i"
    and st': "st' = continue_worker rc w
        (st\<lparr>stats := record_result (stats st) (fst (performUserAction env)),
             trace := trace st @ [Recorded w i]\<rparr>)"
  show ?thesis
    unfolding st'
    by (rule polling_continue) (simp_all add: polling_stats_recorded [OF assms(1)] w aw)
qed

lemma polling_step_st:
  assumes "polling rc st" "step_st rc st ev = Some st'"
  shows "polling rc st'"
  using assms(2)
proof (cases rule: step_st_SomeE)
  case (finish w env i)
  then show ?thesis
    using polling_recorded [OF assms(1), of w "Returned i"] by simp
next
  case (resume w i)
  then show ?thesis
    using polling_continue [OF assms(1), of w] by simp
qed

lemma polling_run_events:
  "polling rc st \<Longrightarrow> run_events rc st evs = Some st' \<Longrightarrow> polling rc st'"
  by (induction evs arbitrary: st) (auto split: option.splits dest: polling_resume)

lemma polling_run_events_st:
  "polling rc st \<Longrightarrow> run_events_st rc st evs = Some st' \<Longrightarrow> polling rc st'"
  by (induction evs arbitrary: st) (auto split: option.splits dest: polling_step_st)

lemma polling_init: "polling rc init_stage" "polling rc init_run"
  by (simp_all add: polling_def)

lemma list_all_butlast: "list_all P xs \<Longrightarrow> list_all P (butlast xs)"
  by (auto simp: list_all_iff dest: in_set_butlastD)

lemma polling_butlast:
  assumes "polling rc st"
  shows "list_all (\<lambda>i. i < rc) (butlast (polls_of w (trace st)))"
proof -
  consider "w < length (workers st)" "workers st ! w \<noteq> Exited"
    | "w < length (workers st)" "workers st ! w = Exited"
    | "length (workers st) \<le> w" by linarith
  then show ?thesis
  proof cases
    case 1
    with assms have "list_all (\<lambda>i. i < rc) (polls_of w (trace st))" by (simp add: polling_def)
    then show ?thesis by (rule list_all_butlast)
  next
    case 2
    with assms obtain js j where "polls_of w (trace st) = js @ [j]" "list_all (\<lambda>i. i < rc) js"
      unfolding polling_def by blast
    then show ?thesis by simp
  next
    case 3
    with assms have "polls_of w (trace st) = []" by (simp add: polling_def)
    then show ?thesis by simp
  qed
qed

lemma polling_exited:
  assumes "polling rc st" "w < length (workers st)"
  shows "workers st ! w = Exited \<longleftrightarrow>
         polls_of w (trace st) \<noteq> [] \<and> rc \<le> last (polls_of w (trace st))"
proof (cases "workers st ! w = Exited")
  case True
  with assms obtain js j where "polls_of w (trace st) = js @ [j]" "rc \<le> j"
    unfolding polling_def by blast
  with True show ?thesis by simp
next
  case False
  with assms have "list_all (\<lambda>i. i < rc) (polls_of w (trace st))" by (simp add: polling_def)
  then have "polls_of w (trace st) \<noteq> [] \<Longrightarrow> last (polls_of w (trace st)) < rc"
    by (auto simp: list_all_iff)
  with False show ?thesis by auto
qed

lemma accounted_polls:
  assumes "accounted rc st"
  shows "polls (trace st) = [0..<tasksStarted st]" "distinct (polls (trace st))"
    "j < length (polls (trace st)) \<Longrightarrow> polls (trace st) ! j = j"
  using assms by (simp_all add: accounted_def)

lemma resume_Exited: "w < length (workers st) \<Longrightarrow> workers st ! w = Exited \<Longrightarrow> resume rc st (w, env) = None"
  by (simp add: resume_def)

lemma step_st_Exited:
  "w < length (workers st) \<Longrightarrow> workers st ! w = Exited \<Longrightarrow>
     step_st rc st (Finish w env) = None \<and> step_st rc st (Resume w) = None"
  by (simp add: step_st_def)

text \<open>
  C5. The task source never returns an index twice: its successive calls return
  \<open>0, 1, 2, ...\<close>, so the calls from the \<open>requestCount\<close>-th on, however many, return an
  index that is no task (\<open>index >= requestCount\<close>), and only they do. In every state
  a pool reaches (\<open>index.js\<close> and \<open>stress_test.js\<close>), the indices returned to the workers,
  in the order of the calls, are these, hence distinct; every call of a worker but its last
  returned a task; a worker has exited exactly when its last call returned an index that
  is no task; and no event resumes a worker that has exited, so it never calls again.
\<close>

theorem task_source_unique_and_exhausting:
  "distinct (issue m 0) \<and>
   (\<forall>j. j < m \<longrightarrow> issue m 0 ! j = j \<and> (requestCount \<le> issue m 0 ! j \<longleftrightarrow> requestCount \<le> j))
 \<and> (run_events requestCount (spawn_workers requestCount k init_stage) evs = Some st \<longrightarrow>
      polls (trace st) = issue (tasksStarted st) 0 \<and>
      distinct (polls (trace st)) \<and>
      (\<forall>w. list_all (\<lambda>i. i < requestCount) (butlast (polls_of w (trace st)))) \<and>
      (\<forall>w. w < length (workers st) \<longrightarrow>
          (workers st ! w = Exited \<longleftrightarrow>
             polls_of w (trace st) \<noteq> [] \<and> requestCount \<le> last (polls_of w (trace st))) \<and>
          (workers st ! w = Exited \<longrightarrow> (\<forall>env. resume requestCount st (w, env) = None))))
 \<and> (run_events_st requestCount (spawn_workers requestCount k' init_run) evs' = Some st' \<longrightarrow>
      polls (trace st') = issue (tasksStarted st') 0 \<and>
      distinct (polls (trace st')) \<and>
      (\<forall>w. list_all (\<lambda>i. i < requestCount) (butlast (polls_of w (trace st')))) \<and>
      (\<forall>w. w < length (workers st') \<longrightarrow>
          (workers st' ! w = Exited \<longleftrightarrow>
             polls_of w (trace st') \<noteq> [] \<and> requestCount \<le> last (polls_of w (trace st'))) \<and>
          (workers st' ! w = Exited \<longrightarrow>
             (\<forall>env. step_st requestCount st' (Finish w env) = None) \<and>
             step_st requestCount st' (Resume w) = None)))"
proof (intro conjI impI allI)
  show "distinct (issue m 0)" by (simp add: issue_upt)
next
  fix j assume "j < m"
  then show "issue m 0 ! j = j" by (simp add: issue_upt)
next
  fix j assume "j < m"
  then show "requestCount \<le> issue m 0 ! j \<longleftrightarrow> requestCount \<le> j" by (simp add: issue_upt)
next
  assume r: "run_events requestCount (spawn_workers requestCount k init_stage) evs = Some st"
  have acc: "accounted requestCount st"
    using accounted_run_events [OF accounted_spawn [OF accounted_init] r] .
  have pol: "polling requestCount st"
    using polling_run_events [OF polling_spawn [OF polling_init(1)] r] .
  show "polls (trace st) = issue (tasksStarted st) 0"
    using accounted_polls(1) [OF acc] by (simp add: issue_upt)
  show "distinct (polls (trace st))" by (rule accounted_polls(2) [OF acc])
  show "list_all (\<lambda>i. i < requestCount) (butlast (polls_of w (trace st)))" for w
    by (rule polling_butlast [OF pol])
  show "workers st ! w = Exited \<longleftrightarrow>
          polls_of w (trace st) \<noteq> [] \<and> requestCount \<le> last (polls_of w (trace st))"
    if "w < length (workers st)" for w
    by (rule polling_exited [OF pol that])
  show "resume requestCount st (w, env) = None"
    if "w < length (workers st)" "workers st ! w = Exited" for w env
    by (rule resume_Exited [OF that])
next
  assume r: "run_events_st requestCount (spawn_workers requestCount k' init_run) evs' = Some st'"
  have acc: "accounted requestCount st'"
    using accounted_run_events_st [OF accounted_spawn [OF accounted_init_run] r] .
  have pol: "polling requestCount st'"
    using polling_run_events_st [OF polling_spawn [OF polling_init(2)] r] .
  show "polls (trace st') = issue (tasksStarted st') 0"
    using accounted_polls(1) [OF acc] by (simp add: issue_upt)
  show "distinct (polls (trace st'))" by (rule accounted_polls(2) [OF acc])
  show "list_all (\<lambda>i. i < requestCount) (butlast (polls_of w (trace st')))" for w
    by (rule polling_butlast [OF pol])
  show "workers st' ! w = Exited \<longleftrightarrow>
          polls_of w (trace st') \<noteq> [] \<and> requestCount \<le> last (polls_of w (trace st'))"
    if "w < length (workers st')" for w
    by (rule polling_exited [OF pol that])
  show "step_st requestCount st' (Finish w env) = None"
    if "w < length (workers st')" "workers st' ! w = Exited" for w env
    using step_st_Exited [OF that] by simp
  show "step_st requestCount st' (Resume w) = None"
    if "w < length (workers st')" "workers st' ! w = Exited" for w
    using step_st_Exited [OF that] by simp
qed


text \<open>
  The witness: seven calls of the task source with \<open>requestCount = 3\<close>, and the sample
  stage and run of 3 requests on 2 workers.
\<close>

theorem task_source_unique_and_exhausting_witness:
  "distinct (issue 7 0) \<and> issue 7 0 ! 2 = 2 \<and> issue 7 0 ! 5 = 5 \<and>
   \<not> 3 \<le> issue 7 0 ! 2 \<and> 3 \<le> issue 7 0 ! 5 \<and>
   (\<exists>st st'.
      run_events 3 (spawn_workers 3 2 init_stage) sample_completions = Some st \<and>
      polls (trace st) = issue (tasksStarted st) 0 \<and>
      polls (trace st) = [0, 1, 2, 3, 4] \<and>
      polls_of 0 (trace st) = [0, 3] \<and> polls_of 1 (trace st) = [1, 2, 4] \<and>
      list_all (\<lambda>i. i < 3) (butlast (polls_of 1 (trace st))) \<and>
      workers st ! 1 = Exited \<and> resume 3 st (1, env_ok) = None \<and>
      run_events_st 3 (spawn_workers 3 2 init_run) sample_events_st = Some st' \<and>
      polls (trace st') = issue (tasksStarted st') 0 \<and>
      polls (trace st') = [0, 1, 2, 3, 4] \<and>
      polls_of 0 (trace st') = [0, 2, 4] \<and> polls_of 1 (trace st') = [1, 3] \<and>
      list_all (\<lambda>i. i < 3) (butlast (polls_of 0 (trace st'))) \<and>
      workers st' ! 0 = Exited \<and> step_st 3 st' (Finish 0 env_ok) = None \<and>
      step_st 3 st' (Resume 0) = None)"
proof -
  obtain st where st: "run_events 3 (spawn_workers 3 2 init_stage) sample_completions = Some st"
    and tr: "trace st = [Polled 0 0, Polled 1 1, Recorded 1 1, Polled 1 2, Recorded 0 0,
                    Polled 0 3, Recorded 1 2, Polled 1 4]"
    and ws: "workers st = [Exited, Exited]"
    using sample_run_events by simp
  obtain st' where st': "run_events_st 3 (spawn_workers 3 2 init_run) sample_events_st = Some st'"
    and tr': "trace st' = [Polled 0 0, Polled 1 1, Recorded 1 1, Recorded 0 0, Polled 0 2,
                    Recorded 0 2, Polled 1 3, Polled 0 4]"
    and ws': "workers st' = [Exited, Exited]"
    using sample_run_events_st by simp
  note t = task_source_unique_and_exhausting [where m = 7 and requestCount = 3 and k = 2
      and evs = sample_completions and st = st and k' = 2 and evs' = sample_events_st and st' = st']
  from t have i: "distinct (issue 7 0)" "issue 7 0 ! 2 = 2" "issue 7 0 ! 5 = 5"
    "\<not> 3 \<le> issue 7 0 ! 2" "3 \<le> issue 7 0 ! 5"
    by simp_all
  from t st have a: "polls (trace st) = issue (tasksStarted st) 0"
    "list_all (\<lambda>i. i < 3) (butlast (polls_of 1 (trace st)))"
    "resume 3 st (1, env_ok) = None"
    by (simp_all add: ws)
  from t st' have b: "polls (trace st') = issue (tasksStarted st') 0"
    "list_all (\<lambda>i. i < 3) (butlast (polls_of 0 (trace st')))"
    "step_st 3 st' (Finish 0 env_ok) = None" "step_st 3 st' (Resume 0) = None"
    by (simp_all add: ws')
  have c: "polls (trace st) = [0, 1, 2, 3, 4]" "polls_of 0 (trace st) = [0, 3]"
    "polls_of 1 (trace st) = [1, 2, 4]" "workers st ! 1 = Exited"
    "polls (trace st') = [0, 1, 2, 3, 4]" "polls_of 0 (trace st') = [0, 2, 4]"
    "polls_of 1 (trace st') = [1, 3]" "workers st' ! 0 = Exited"
    by (simp_all add: tr tr' ws ws')
  show ?thesis
    using i a b c st st' by blast
qed

subsection \<open>The progressive test\<close>

lemma ramp_ok_ceiling:
  "\<not> cur \<le> maxc \<Longrightarrow> ramp_ok stage step maxc cur rep (rep, StoppedAtCeiling)"
  by (simp add: ramp_ok_def)

lemma ramp_ok_failure:
  "cur \<le> maxc \<Longrightarrow> stage (length rep) cur = Some result \<Longrightarrow> hasCriticalFailure result \<Longrightarrow>
   ramp_ok stage step maxc cur rep (rep @ [result], StoppedOnFailure (cur - step))"
  by (simp add: ramp_ok_def)

lemma ramp_ok_next:
  assumes le: "cur \<le> maxc" and st: "stage (length rep) cur = Some result"
    and nc: "\<not> hasCriticalFailure result"
    and ih: "ramp_ok stage step maxc (cur + step) (rep @ [result]) y"
  shows "ramp_ok stage step maxc cur rep y"
proof -
  from ih obtain new where y: "fst y = (rep @ [result]) @ new"
    and stages: "\<And>k. k < length new \<Longrightarrow>
            stage (length (rep @ [result]) + k) (cur + step + int k * step) = Some (new ! k) \<and>
            cur + step + int k * step \<le> maxc \<and>
            (Suc k < length new \<longrightarrow> \<not> hasCriticalFailure (new ! k))"
    and fin: "case snd y of
           StoppedAtCeiling \<Rightarrow>
             (\<forall>k<length new. \<not> hasCriticalFailure (new ! k)) \<and>
             maxc < cur + step + int (length new) * step
         | StoppedOnFailure sl \<Rightarrow>
             new \<noteq> [] \<and> hasCriticalFailure (last new) \<and>
             sl = cur + step + int (length new - 1) * step - step"
    unfolding ramp_ok_def by blast
  let ?new = "result # new"
  have a: "fst y = rep @ ?new" using y by simp
  have b: "stage (length rep + k) (cur + int k * step) = Some (?new ! k) \<and>
            cur + int k * step \<le> maxc \<and>
            (Suc k < length ?new \<longrightarrow> \<not> hasCriticalFailure (?new ! k))"
    if "k < length ?new" for k
  proof (cases k)
    case 0
    with le st nc show ?thesis by simp
  next
    case (Suc j)
    with that have "j < length new" by simp
    from stages [OF this] show ?thesis
      using Suc by (simp add: algebra_simps)
  qed
  have c: "case snd y of
           StoppedAtCeiling \<Rightarrow>
             (\<forall>k<length ?new. \<not> hasCriticalFailure (?new ! k)) \<and>
             maxc < cur + int (length ?new) * step
         | StoppedOnFailure sl \<Rightarrow>
             ?new \<noteq> [] \<and> hasCriticalFailure (last ?new) \<and>
             sl = cur + int (length ?new - 1) * step - step"
  proof (cases "snd y")
    case StoppedAtCeiling
    with fin have f: "\<forall>k<length new. \<not> hasCriticalFailure (new ! k)"
      "maxc < cur + step + int (length new) * step" by simp_all
    have "\<not> hasCriticalFailure (?new ! k)" if "k < length ?new" for k
      using that f(1) nc by (cases k) simp_all
    with f(2) StoppedAtCeiling show ?thesis by (simp add: algebra_simps)
  next
    case (StoppedOnFailure sl)
    with fin have f: "new \<noteq> []" "hasCriticalFailure (last new)"
      "sl = cur + step + int (length new - 1) * step - step" by simp_all
    from f(1) obtain m where m: "length new = Suc m" by (cases new) simp_all
    have l: "length ?new - 1 = Suc m" by (simp add: m)
    have "sl = cur + step + int m * step - step" using f(3) by (simp add: m)
    then have "sl = cur + int (length ?new - 1) * step - step"
      unfolding l by (simp add: algebra_simps)
    with f(1,2) StoppedOnFailure show ?thesis by simp
  qed
  show ?thesis
    unfolding ramp_ok_def using a b c by blast
qed

lemma progressive_loop_ramp_ok:
  assumes "progressive_loop stage step maxc cur rep = Some y"
  shows "ramp_ok stage step maxc cur rep y"
proof (rule progressive_loop.raw_induct [where P = ramp_ok, OF _ assms])
  fix loop stage step maxc cur rep y
  assume ih: "\<And>stage step maxc cur rep y.
      loop stage step maxc cur rep = Some y \<Longrightarrow> ramp_ok stage step maxc cur rep y"
  assume body: "(if cur \<le> maxc
      then case stage (length rep) cur of
             None \<Rightarrow> None
           | Some result \<Rightarrow>
               if hasCriticalFailure result
               then Some (rep @ [result], StoppedOnFailure (cur - step))
               else loop stage step maxc (cur + step) (rep @ [result])
      else Some (rep, StoppedAtCeiling)) = Some y"
  show "ramp_ok stage step maxc cur rep y"
  proof (cases "cur \<le> maxc")
    case False
    with body show ?thesis by (auto intro: ramp_ok_ceiling)
  next
    case True
    with body obtain result where st: "stage (length rep) cur = Some result"
      by (auto split: option.splits)
    show ?thesis
    proof (cases "hasCriticalFailure result")
      case True
      with \<open>cur \<le> maxc\<close> st body show ?thesis by (auto intro: ramp_ok_failure)
    next
      case False
      with \<open>cur \<le> maxc\<close> st body have "loop stage step maxc (cur + step) (rep @ [result]) = Some y"
        by simp
      then have "ramp_ok stage step maxc (cur + step) (rep @ [result]) y" by (rule ih)
      with \<open>cur \<le> maxc\<close> st False show ?thesis by (rule ramp_ok_next)
    qed
  qed
qed

lemma runStage_concurrency: "runStage c rc env = Some r \<Longrightarrow> concurrency r = c"
  by (erule runStage_SomeE) (simp add: stage_result_fields)

lemma progressive_loop_stop:
  "\<not> cur \<le> maxc \<Longrightarrow> progressive_loop stage step maxc cur rep = Some (rep, StoppedAtCeiling)"
  by (subst progressive_loop.simps) simp

lemma progressive_loop_fail:
  "cur \<le> maxc \<Longrightarrow> stage (length rep) cur = Some r \<Longrightarrow> hasCriticalFailure r \<Longrightarrow>
   progressive_loop stage step maxc cur rep = Some (rep @ [r], StoppedOnFailure (cur - step))"
  by (subst progressive_loop.simps) simp

lemma progressive_loop_continue:
  "cur \<le> maxc \<Longrightarrow> stage (length rep) cur = Some r \<Longrightarrow> \<not> hasCriticalFailure r \<Longrightarrow>
   progressive_loop stage step maxc cur rep =
   progressive_loop stage step maxc (cur + step) (rep @ [r])"
  by (subst progressive_loop.simps) simp

text \<open>
  The loop returns whenever the step is positive and every stage returns.
\<close>

lemma progressive_loop_terminates:
  assumes "0 < step" and "\<And>k c. stage k c \<noteq> None"
  shows "\<exists>y. progressive_loop stage step maxc cur rep = Some y"
proof (induction "nat (maxc - cur + 1)" arbitrary: cur rep rule: less_induct)
  case less
  show ?case
  proof (cases "cur \<le> maxc")
    case False
    then show ?thesis by (simp add: progressive_loop_stop)
  next
    case True
    from assms(2) obtain r where r: "stage (length rep) cur = Some r" by blast
    show ?thesis
    proof (cases "hasCriticalFailure r")
      case True
      with \<open>cur \<le> maxc\<close> r show ?thesis by (simp add: progressive_loop_fail)
    next
      case False
      from \<open>cur \<le> maxc\<close> assms(1) have "nat (maxc - (cur + step) + 1) < nat (maxc - cur + 1)"
        by simp
      from less [OF this] obtain y
        where "progressive_loop stage step maxc (cur + step) (rep @ [r]) = Some y" by blast
      with progressive_loop_continue [of cur maxc stage rep r step, OF \<open>cur \<le> maxc\<close> r False]
      show ?thesis by simp
    qed
  qed
qed

lemma failing_envs_ramp: "k \<noteq> 2 \<Longrightarrow> failing_envs k = ramp_envs k"
  by (simp add: failing_envs_def ramp_envs_def)

text \<open>
  C7. A progressive run with an initial concurrency of 10, a step of 10 and a ceiling of
  30, whose stages at 10, 20 and 30 return without a critical failure, returns: it runs
  exactly these three stages, its report is their three results in this order, with the
  concurrencies 10, 20 and 30, and it leaves the loop by the ceiling.
\<close>

theorem ramp_to_ceiling:
  assumes "runStage 10 n (envs 0) = Some r1" "\<not> hasCriticalFailure r1"
    and "runStage 20 n (envs 1) = Some r2" "\<not> hasCriticalFailure r2"
    and "runStage 30 n (envs 2) = Some r3" "\<not> hasCriticalFailure r3"
  shows "progressive_test 10 10 30 n envs = Some ([r1, r2, r3], StoppedAtCeiling) \<and>
         map concurrency [r1, r2, r3] = [10, 20, 30]"
proof -
  let ?stage = "\<lambda>k c. runStage c n (envs k)"
  have s1: "?stage (length ([] :: StageResult list)) 10 = Some r1"
    and s2: "?stage (length [r1]) 20 = Some r2"
    and s3: "?stage (length [r1, r2]) 30 = Some r3"
    using assms(1,3,5) by (simp_all add: numeral_2_eq_2)
  have "progressive_loop ?stage 10 30 10 [] = progressive_loop ?stage 10 30 (10 + 10) ([] @ [r1])"
    by (rule progressive_loop_continue [of 10 30 ?stage "[]" r1 10, OF _ s1 assms(2)]) simp
  also have "\<dots> = progressive_loop ?stage 10 30 20 [r1]" by simp
  also have "\<dots> = progressive_loop ?stage 10 30 (20 + 10) ([r1] @ [r2])"
    by (rule progressive_loop_continue [of 20 30 ?stage "[r1]" r2 10, OF _ s2 assms(4)]) simp
  also have "\<dots> = progressive_loop ?stage 10 30 30 [r1, r2]" by simp
  also have "\<dots> = progressive_loop ?stage 10 30 (30 + 10) ([r1, r2] @ [r3])"
    by (rule progressive_loop_continue [of 30 30 ?stage "[r1, r2]" r3 10, OF _ s3 assms(6)]) simp
  also have "\<dots> = progressive_loop ?stage 10 30 40 [r1, r2, r3]" by simp
  also have "\<dots> = Some ([r1, r2, r3], StoppedAtCeiling)"
    by (rule progressive_loop_stop) simp
  finally have "progressive_test 10 10 30 n envs = Some ([r1, r2, r3], StoppedAtCeiling)"
    unfolding progressive_test_def .
  moreover have "map concurrency [r1, r2, r3] = [10, 20, 30]"
    using assms(1,3,5) by (simp add: runStage_concurrency)
  ultimately show ?thesis by simp
qed


text \<open>The witness: three stages of one request each, all successful.\<close>

theorem ramp_to_ceiling_witness:
  "\<exists>r1 r2 r3.
     runStage 10 1 (ramp_envs 0) = Some r1 \<and> \<not> hasCriticalFailure r1 \<and>
     runStage 20 1 (ramp_envs 1) = Some r2 \<and> \<not> hasCriticalFailure r2 \<and>
     runStage 30 1 (ramp_envs 2) = Some r3 \<and> \<not> hasCriticalFailure r3 \<and>
     progressive_test 10 10 30 1 ramp_envs = Some ([r1, r2, r3], StoppedAtCeiling) \<and>
     map concurrency [r1, r2, r3] = [10, 20, 30]"
  using ramp_to_ceiling [OF sample_stage_10 _ sample_stage_20 _ sample_stage_30]
    sample_stage_10 sample_stage_20 sample_stage_30
  by simp

text \<open>
  In every progressive run that returns, a stage whose result has a critical failure is
  the last one run, and the stages run are those of the report.
\<close>

lemma critical_stage_is_last:
  assumes "progressive_test c0 step maxc n envs = Some (report, exit)"
    and "i < length report" and "hasCriticalFailure (report ! i)"
  shows "Suc i = length report \<and> report ! i = last report \<and>
         concurrency (report ! i) = c0 + int i * step \<and>
         exit = StoppedOnFailure (concurrency (report ! i) - step) \<and>
         (\<forall>k<length report. runStage (c0 + int k * step) n (envs k) = Some (report ! k))"
proof -
  let ?stage = "\<lambda>k c. runStage c n (envs k)"
  from assms(1) have "ramp_ok ?stage step maxc c0 [] (report, exit)"
    unfolding progressive_test_def by (rule progressive_loop_ramp_ok)
  then have stages: "\<And>k. k < length report \<Longrightarrow>
        runStage (c0 + int k * step) n (envs k) = Some (report ! k)"
    and quiet: "\<And>k. Suc k < length report \<Longrightarrow> \<not> hasCriticalFailure (report ! k)"
    and fin: "case exit of
           StoppedAtCeiling \<Rightarrow> (\<forall>k<length report. \<not> hasCriticalFailure (report ! k))
         | StoppedOnFailure sl \<Rightarrow> sl = c0 + int (length report - 1) * step - step"
    by (auto simp: ramp_ok_def split: terminal.splits)
  have "\<not> Suc i < length report" using quiet [of i] assms(3) by blast
  with assms(2) have len: "Suc i = length report" by linarith
  then have "report \<noteq> []" by auto
  then have last: "report ! i = last report"
    using len by (simp add: last_conv_nth flip: len)
  have conc: "concurrency (report ! i) = c0 + int i * step"
    using stages [OF assms(2)] by (rule runStage_concurrency)
  have "exit = StoppedOnFailure (c0 + int i * step - step)"
  proof (cases exit)
    case StoppedAtCeiling
    with fin assms(2,3) show ?thesis by auto
  next
    case (StoppedOnFailure sl)
    with fin have "sl = c0 + int (length report - 1) * step - step" by simp
    also have "length report - 1 = i" using len by simp
    finally show ?thesis using StoppedOnFailure by simp
  qed
  with len last conc stages show ?thesis by simp
qed

lemma progressive_loop_stops_on_failure:
  assumes "\<And>k. k < length rs \<Longrightarrow>
        stage (length rep + k) (cur + int k * step) = Some (rs ! k) \<and>
        \<not> hasCriticalFailure (rs ! k) \<and> cur + int k * step \<le> maxc"
    and "stage (length rep + length rs) (cur + int (length rs) * step) = Some r"
    and "hasCriticalFailure r"
    and "cur + int (length rs) * step \<le> maxc"
  shows "progressive_loop stage step maxc cur rep =
         Some (rep @ rs @ [r], StoppedOnFailure (cur + int (length rs) * step - step))"
  using assms
proof (induction rs arbitrary: cur rep)
  case Nil
  then show ?case
    using progressive_loop_fail [of cur maxc stage rep r step] by simp
next
  case (Cons a rs)
  from Cons.prems(1) [of 0]
  have a: "stage (length rep) cur = Some a" "\<not> hasCriticalFailure a" "cur \<le> maxc"
    by simp_all
  have step1: "progressive_loop stage step maxc cur rep =
      progressive_loop stage step maxc (cur + step) (rep @ [a])"
    by (rule progressive_loop_continue [of cur maxc stage rep a step, OF a(3) a(1) a(2)])
  have earlier: "stage (length (rep @ [a]) + k) (cur + step + int k * step) = Some (rs ! k) \<and>
        \<not> hasCriticalFailure (rs ! k) \<and> cur + step + int k * step \<le> maxc"
    if "k < length rs" for k
    using Cons.prems(1) [of "Suc k"] that by (simp add: algebra_simps)
  have this_one: "stage (length (rep @ [a]) + length rs) (cur + step + int (length rs) * step) = Some r"
    using Cons.prems(2) by (simp add: algebra_simps)
  have within: "cur + step + int (length rs) * step \<le> maxc"
    using Cons.prems(4) by (simp add: algebra_simps)
  from Cons.IH [of "rep @ [a]" "cur + step", OF earlier this_one Cons.prems(3) within]
  have "progressive_loop stage step maxc (cur + step) (rep @ [a]) =
      Some ((rep @ [a]) @ rs @ [r], StoppedOnFailure (cur + step + int (length rs) * step - step))"
    by simp
  with step1 show ?case by (simp add: algebra_simps)
qed

text \<open>
  C6. In a progressive run, if the stages before some stage return without a critical
  failure, all within the ceiling, and this stage, within the ceiling, returns with a
  critical failure, then the run returns and runs no further stage: its report is the
  results of the earlier stages followed by the result of this stage, which is its last
  entry, the run has left the loop by the \<open>break\<close>, and the stable limit reported is the
  concurrency of this stage minus the step.
\<close>

theorem stops_on_critical_failure:
  assumes "\<And>k. k < length rs \<Longrightarrow>
        runStage (c0 + int k * step) n (envs k) = Some (rs ! k) \<and>
        \<not> hasCriticalFailure (rs ! k) \<and> c0 + int k * step \<le> maxc"
    and "runStage (c0 + int (length rs) * step) n (envs (length rs)) = Some r"
    and "hasCriticalFailure r"
    and "c0 + int (length rs) * step \<le> maxc"
  shows "progressive_test c0 step maxc n envs =
           Some (rs @ [r], StoppedOnFailure (concurrency r - step)) \<and>
         concurrency r = c0 + int (length rs) * step \<and>
         last (rs @ [r]) = r \<and> length (rs @ [r]) = Suc (length rs)"
proof -
  let ?stage = "\<lambda>k c. runStage c n (envs k)"
  have conc: "concurrency r = c0 + int (length rs) * step"
    using assms(2) by (rule runStage_concurrency)
  have "progressive_loop ?stage step maxc c0 [] =
         Some ([] @ rs @ [r], StoppedOnFailure (c0 + int (length rs) * step - step))"
    by (rule progressive_loop_stops_on_failure) (use assms in simp_all)
  then have "progressive_test c0 step maxc n envs =
           Some (rs @ [r], StoppedOnFailure (concurrency r - step))"
    by (simp add: progressive_test_def conc)
  with conc show ?thesis by simp
qed

text \<open>
  The witness: with a step of 10, a failure at concurrency 30 stops the run with the
  stable limit 20.
\<close>

theorem stops_on_critical_failure_witness:
  "\<exists>r1 r2 r.
     runStage 10 1 (failing_envs 0) = Some r1 \<and> \<not> hasCriticalFailure r1 \<and>
     runStage 20 1 (failing_envs 1) = Some r2 \<and> \<not> hasCriticalFailure r2 \<and>
     runStage 30 1 (failing_envs 2) = Some r \<and> hasCriticalFailure r \<and>
     progressive_test 10 10 500 1 failing_envs = Some ([r1, r2] @ [r], StoppedOnFailure 20) \<and>
     concurrency r = 30 \<and> last ([r1, r2] @ [r]) = r"
proof -
  let ?r1 = "\<lparr>concurrency = 10, throughput = Num 1, avgLatency = Num 7, errorRate = Num 0,
              hasCriticalFailure = False\<rparr>"
  let ?r2 = "\<lparr>concurrency = 20, throughput = Num 1, avgLatency = Num 7, errorRate = Num 0,
              hasCriticalFailure = False\<rparr>"
  let ?r = "\<lparr>concurrency = 30, throughput = Num 0, avgLatency = Num 0, errorRate = Num 1,
              hasCriticalFailure = True\<rparr>"
  have s1: "runStage 10 1 (failing_envs 0) = Some ?r1"
    and s2: "runStage 20 1 (failing_envs 1) = Some ?r2"
    using sample_stage_10 sample_stage_20 by (simp_all add: failing_envs_ramp)
  have earlier: "runStage (10 + int k * 10) 1 (failing_envs k) = Some ([?r1, ?r2] ! k) \<and>
        \<not> hasCriticalFailure ([?r1, ?r2] ! k) \<and> 10 + int k * 10 \<le> 500"
    if "k < length [?r1, ?r2]" for k
  proof -
    from that consider "k = 0" | "k = 1" by fastforce
    then show ?thesis
      using s1 s2 by cases simp_all
  qed
  have this_one: "runStage (10 + int (length [?r1, ?r2]) * 10) 1 (failing_envs (length [?r1, ?r2])) = Some ?r"
    using sample_stage_30_failing by (simp add: numeral_2_eq_2)
  have crit: "hasCriticalFailure ?r" by simp
  have within: "10 + int (length [?r1, ?r2]) * 10 \<le> (500::int)" by simp
  from stops_on_critical_failure [of "[?r1, ?r2]" 10 10 1 failing_envs 500 ?r,
      OF earlier this_one crit within]
  have "progressive_test 10 10 500 1 failing_envs =
           Some ([?r1, ?r2] @ [?r], StoppedOnFailure (concurrency ?r - 10))"
    "concurrency ?r = 10 + int (length [?r1, ?r2]) * 10"
    "last ([?r1, ?r2] @ [?r]) = ?r"
    by blast+
  with s1 s2 sample_stage_30_failing show ?thesis by simp
qed

end
